theory Spec2Isabelle
  imports Main "HOL-Library.Word" "HOL-Library.Monad_Syntax"
begin

unbundle bit_operations_syntax

section \<open>SPIFlashA: a driver for an SPI NOR flash chip\<close>

text \<open>
  The embedding follows \<^verbatim>\<open>SPIFlashA.cpp\<close> and \<^verbatim>\<open>SPIFlashA.h\<close>. The driver
  object, the registers and pins it touches and the traffic on the bus form one record
  that every operation takes and returns. The flash chip and the Arduino libraries are
  not code of the driver: they are collected in a \<open>platform\<close> that every operation takes
  as its first argument.
\<close>

subsection \<open>Data\<close>

text \<open>
  On the AVR targets of the library \<^verbatim>\<open>byte\<close> and \<^verbatim>\<open>uint8_t\<close> have 8 bits,
  \<^verbatim>\<open>word\<close> and \<^verbatim>\<open>uint16_t\<close> 16 bits and \<^verbatim>\<open>long\<close> 32 bits (signed, read
  with \<open>sint\<close>). Addition on \<^verbatim>\<open>long\<close> is modelled with wrap-around, which is what
  avr-gcc emits; the C standard leaves signed overflow undefined.
\<close>

type_synonym byte = "8 word"
type_synonym word16 = "16 word"
type_synonym long = "32 word"

text \<open>
  What happens on the wires, in order: the chip-select pin driven low or high by
  \<^verbatim>\<open>digitalWrite\<close>, and one event per \<^verbatim>\<open>SPI.transfer\<close> holding the byte sent
  and the byte received.
\<close>

datatype bus_event = CS_Low | CS_High | Xfer byte byte

text \<open>What the driver prints on \<^verbatim>\<open>Serial\<close>: a string, or a byte in a base, or a line end.\<close>

datatype serial_event = Print_str string | Print_num byte nat | Println_num byte nat | Println

text \<open>
  The platform. \<open>atmega32u4\<close> tells whether \<^verbatim>\<open>__AVR_ATmega32U4__\<close> is defined (the two
  \<^verbatim>\<open>#if\<close> branches of the source). The \<^verbatim>\<open>SPI\<close> library functions the driver calls
  with fixed arguments are functions on the register pair \<open>(SPCR, SPSR)\<close>, left open here
  (what they do to other pins is not modelled). The chip
  answers each transfer with a byte that may depend on everything that happened on
  the bus before; since the bus history grows with every status poll, a chip that stays
  busy for some time and then becomes ready is such a function.
\<close>

record platform =
  atmega32u4 :: bool
  setDataMode_MODE0 :: "byte \<times> byte \<Rightarrow> byte \<times> byte"
  setBitOrder_MSBFIRST :: "byte \<times> byte \<Rightarrow> byte \<times> byte"
  setClockDivider_DIV4 :: "byte \<times> byte \<Rightarrow> byte \<times> byte"
  SPI_begin :: "byte \<times> byte \<Rightarrow> byte \<times> byte"
  SPI_end :: "byte \<times> byte \<Rightarrow> byte \<times> byte"
  miso :: "bus_event list \<Rightarrow> byte"

text \<open>
  The driver object (\<open>m_\<close> stands for the leading underscore of the members), the static
  buffer \<^verbatim>\<open>UNIQUEID\<close> (an array of 12 bytes, a list of that length here), the
  hardware registers, the interrupt flag, the level and the direction of the chip-select
  pin, and the two logs. \<open>SPCR\<close> and \<open>SPSR\<close> are taken as plain storage: the status flags
  that the hardware raises in \<open>SPSR\<close> during a transfer are not modelled.
\<close>

record flash =
  m_slaveSelectPin :: byte
  m_jedecID :: long
  m_SPCR :: byte
  m_SPSR :: byte
  UNIQUEID :: "byte list"
  SPCR :: byte
  SPSR :: byte
  DDRB :: byte
  PORTB :: byte
  interrupts_on :: bool
  ss_high :: bool
  ss_output :: bool
  trace :: "bus_event list"
  serial :: "serial_event list"

subsection \<open>Opcodes (\<^verbatim>\<open>SPIFlashA.h\<close>)\<close>

definition SPIFLASH_STATUSWRITE :: byte where "SPIFLASH_STATUSWRITE = 0x01"
definition SPIFLASH_BYTEPAGEPROGRAM :: byte where "SPIFLASH_BYTEPAGEPROGRAM = 0x02"
definition SPIFLASH_ARRAYREADLOWFREQ :: byte where "SPIFLASH_ARRAYREADLOWFREQ = 0x03"
definition SPIFLASH_WRITEDISABLE :: byte where "SPIFLASH_WRITEDISABLE = 0x04"
definition SPIFLASH_STATUSREAD :: byte where "SPIFLASH_STATUSREAD = 0x05"
definition SPIFLASH_WRITEENABLE :: byte where "SPIFLASH_WRITEENABLE = 0x06"
definition SPIFLASH_STATUSREAD2 :: byte where "SPIFLASH_STATUSREAD2 = 0x07"
definition SPIFLASH_ARRAYREAD :: byte where "SPIFLASH_ARRAYREAD = 0x0B"
definition SPIFLASH_BLOCKERASE_4K :: byte where "SPIFLASH_BLOCKERASE_4K = 0x20"
definition SPIFLASH_CHIPERASE :: byte where "SPIFLASH_CHIPERASE = 0x60"
definition SPIFLASH_MACREAD :: byte where "SPIFLASH_MACREAD = 0x4B"
definition SPIFLASH_IDREAD :: byte where "SPIFLASH_IDREAD = 0x9f"
definition SPIFLASH_BLOCKERASE_64K :: byte where "SPIFLASH_BLOCKERASE_64K = 0xD8"

lemmas opcode_defs =
  SPIFLASH_STATUSWRITE_def SPIFLASH_BYTEPAGEPROGRAM_def SPIFLASH_ARRAYREADLOWFREQ_def
  SPIFLASH_WRITEDISABLE_def SPIFLASH_STATUSREAD_def SPIFLASH_WRITEENABLE_def
  SPIFLASH_STATUSREAD2_def SPIFLASH_ARRAYREAD_def SPIFLASH_BLOCKERASE_4K_def
  SPIFLASH_CHIPERASE_def SPIFLASH_MACREAD_def SPIFLASH_IDREAD_def
  SPIFLASH_BLOCKERASE_64K_def

subsection \<open>Library calls\<close>

text \<open>\<^verbatim>\<open>digitalWrite(_slaveSelectPin, level)\<close>: the pin takes the level, the bus sees the edge.\<close>

definition digitalWrite :: "bool \<Rightarrow> flash \<Rightarrow> flash" where
  "digitalWrite level s =
     s\<lparr>ss_high := level, trace := trace s @ [if level then CS_High else CS_Low]\<rparr>"

text \<open>\<^verbatim>\<open>SPI.transfer(b)\<close>: sends \<open>b\<close>, returns what the chip answers.\<close>

definition SPI_transfer :: "platform \<Rightarrow> byte \<Rightarrow> flash \<Rightarrow> byte \<times> flash" where
  "SPI_transfer p b s =
     (let r = miso p (trace s) in (r, s\<lparr>trace := trace s @ [Xfer b r]\<rparr>))"

definition spi_call :: "(byte \<times> byte \<Rightarrow> byte \<times> byte) \<Rightarrow> flash \<Rightarrow> flash" where
  "spi_call f s = (let r = f (SPCR s, SPSR s) in s\<lparr>SPCR := fst r, SPSR := snd r\<rparr>)"

subsection \<open>select and unselect\<close>

definition select :: "platform \<Rightarrow> flash \<Rightarrow> flash" where
  "select p s =
     (let s1 = s\<lparr>interrupts_on := False\<rparr>;
          s2 = s1\<lparr>m_SPCR := SPCR s1\<rparr>;
          s3 = s2\<lparr>m_SPSR := SPSR s2\<rparr>;
          s4 = spi_call (setDataMode_MODE0 p) s3;
          s5 = spi_call (setBitOrder_MSBFIRST p) s4;
          s6 = spi_call (setClockDivider_DIV4 p) s5;
          s7 = spi_call (SPI_begin p) s6
      in digitalWrite False s7)"

definition unselect :: "flash \<Rightarrow> flash" where
  "unselect s =
     (let s1 = digitalWrite True s;
          s2 = s1\<lparr>SPCR := m_SPCR s1\<rparr>;
          s3 = s2\<lparr>SPSR := m_SPSR s2\<rparr>
      in s3\<lparr>interrupts_on := True\<rparr>)"

subsection \<open>Status and the busy loop\<close>

definition readStatus :: "platform \<Rightarrow> flash \<Rightarrow> byte \<times> flash" where
  "readStatus p s =
     (let s1 = select p s;
          s2 = snd (SPI_transfer p SPIFLASH_STATUSREAD s1);
          (status, s3) = SPI_transfer p 0 s2
      in (status, unselect s3))"

definition busy :: "platform \<Rightarrow> flash \<Rightarrow> bool \<times> flash" where
  "busy p s = (let (status, s1) = readStatus p s in (status AND 1 \<noteq> 0, s1))"

text \<open>
  \<^verbatim>\<open>while (busy());\<close> has no bound: with a chip that never clears the busy bit it does
  not return, which is the value \<open>None\<close>.
\<close>

partial_function (option) while_busy :: "platform \<Rightarrow> flash \<Rightarrow> flash option" where
  "while_busy p s =
     (let r = busy p s in if fst r then while_busy p (snd r) else Some (snd r))"

declare while_busy.simps [code]

subsection \<open>command\<close>

text \<open>
  \<^verbatim>\<open>command(cmd, isWrite)\<close> calls itself once for the write-enable, with the default
  \<^verbatim>\<open>isWrite = false\<close>. It returns with the chip selected and the opcode sent.
\<close>

function command :: "platform \<Rightarrow> byte \<Rightarrow> bool \<Rightarrow> flash \<Rightarrow> flash option" where
  "command p cmd isWrite s =
     (let s0 = (if atmega32u4 p
                then (s\<lparr>DDRB := DDRB s OR 1\<rparr>)\<lparr>PORTB := PORTB s OR 1\<rparr>
                else s)
      in do {
        s1 \<leftarrow> (if isWrite
               then do { t \<leftarrow> command p SPIFLASH_WRITEENABLE False s0; Some (unselect t) }
               else Some s0);
        s2 \<leftarrow> while_busy p s1;
        Some (snd (SPI_transfer p cmd (select p s2)))
      })"
  by pat_completeness auto
termination
  by (relation "measure (\<lambda>(p, cmd, isWrite, s). if isWrite then 1 else 0)") auto

declare command.simps [simp del]

subsection \<open>sleep, wakeup, end\<close>

text \<open>Both bodies are commented out in the source (``NOOP FOR SPANSION'').\<close>

definition sleep :: "flash \<Rightarrow> flash" where
  "sleep s = s"

definition wakeup :: "flash \<Rightarrow> flash" where
  "wakeup s = s"

definition end_flash :: "platform \<Rightarrow> flash \<Rightarrow> flash" where
  "end_flash p s = spi_call (SPI_end p) s"

subsection \<open>Identifiers\<close>

text \<open>
  \<^verbatim>\<open>(long) SPI.transfer(0) << 16\<close>: the byte is widened without sign (\<open>ucast\<close>) and
  shifted as a \<^verbatim>\<open>long\<close>.
\<close>

definition readDeviceId :: "platform \<Rightarrow> flash \<Rightarrow> (long \<times> flash) option" where
  "readDeviceId p s = do {
     s1 \<leftarrow> (if atmega32u4 p
            then command p SPIFLASH_IDREAD False s
            else Some (snd (SPI_transfer p SPIFLASH_IDREAD (select p s))));
     let jedecid = (0 :: long);
     let (b1, s2) = SPI_transfer p 0 s1;
     let jedecid = jedecid OR push_bit 16 (ucast b1 :: long);
     let (b2, s3) = SPI_transfer p 0 s2;
     let jedecid = jedecid OR push_bit 8 (ucast b2 :: long);
     let (b3, s4) = SPI_transfer p 0 s3;
     let jedecid = jedecid OR (ucast b3 :: long);
     Some (jedecid, unselect s4)
   }"

text \<open>The loop counter \<^verbatim>\<open>byte i\<close> stays below 13, so a \<open>nat\<close> counts the same.\<close>

function readUniqueId_loop :: "platform \<Rightarrow> nat \<Rightarrow> flash \<Rightarrow> flash" where
  "readUniqueId_loop p i s =
     (if i < 12
      then (let (b, s1) = SPI_transfer p 0 s
            in readUniqueId_loop p (i + 1) (s1\<lparr>UNIQUEID := (UNIQUEID s1)[i := b]\<rparr>))
      else s)"
  by pat_completeness auto
termination
  by (relation "measure (\<lambda>(p, i, s). 12 - i)") auto

declare readUniqueId_loop.simps [simp del]

definition readUniqueId :: "platform \<Rightarrow> flash \<Rightarrow> (byte list \<times> flash) option" where
  "readUniqueId p s = do {
     s1 \<leftarrow> command p SPIFLASH_MACREAD False s;
     let s2 = snd (SPI_transfer p 0 s1);
     let s3 = snd (SPI_transfer p 0 s2);
     let s4 = snd (SPI_transfer p 0 s3);
     let s5 = snd (SPI_transfer p 0 s4);
     let s6 = readUniqueId_loop p 0 s5;
     let s7 = unselect s6;
     Some (UNIQUEID s7, s7)
   }"

subsection \<open>Addresses\<close>

text \<open>
  \<^verbatim>\<open>SPI.transfer(addr >> n)\<close>: the shift of a signed \<^verbatim>\<open>long\<close> is the arithmetic
  one (\<open>signed_drop_bit\<close>), and passing the result to the \<^verbatim>\<open>uint8_t\<close> parameter of
  \<^verbatim>\<open>SPI.transfer\<close> keeps its low eight bits.
\<close>

definition uint8_t :: "long \<Rightarrow> byte" where
  "uint8_t x = ucast x"

subsection \<open>Reading\<close>

definition readByte :: "platform \<Rightarrow> long \<Rightarrow> flash \<Rightarrow> (byte \<times> flash) option" where
  "readByte p addr s = do {
     s1 \<leftarrow> command p SPIFLASH_ARRAYREADLOWFREQ False s;
     let s2 = snd (SPI_transfer p (uint8_t (signed_drop_bit 16 addr)) s1);
     let s3 = snd (SPI_transfer p (uint8_t (signed_drop_bit 8 addr)) s2);
     let s4 = snd (SPI_transfer p (uint8_t addr) s3);
     let (result, s5) = SPI_transfer p 0 s4;
     Some (result, unselect s5)
   }"

text \<open>
  \<^verbatim>\<open>buf\<close> is a pointer: the memory behind it is a function from the index to the byte
  stored there. The counter \<^verbatim>\<open>word i\<close> stays at most \<open>len\<close>, so it does not wrap.
\<close>

function readBytes_loop ::
  "platform \<Rightarrow> nat \<Rightarrow> nat \<Rightarrow> (nat \<Rightarrow> byte) \<Rightarrow> flash \<Rightarrow> (nat \<Rightarrow> byte) \<times> flash" where
  "readBytes_loop p i len buf s =
     (if i < len
      then (let (b, s1) = SPI_transfer p 0 s
            in readBytes_loop p (i + 1) len (buf(i := b)) s1)
      else (buf, s))"
  by pat_completeness auto
termination
  by (relation "measure (\<lambda>(p, i, len, buf, s). len - i)") auto

declare readBytes_loop.simps [simp del]

definition readBytes ::
  "platform \<Rightarrow> long \<Rightarrow> (nat \<Rightarrow> byte) \<Rightarrow> word16 \<Rightarrow> flash \<Rightarrow> ((nat \<Rightarrow> byte) \<times> flash) option" where
  "readBytes p addr buf len s = do {
     s1 \<leftarrow> command p SPIFLASH_ARRAYREAD False s;
     let s2 = snd (SPI_transfer p (uint8_t (signed_drop_bit 16 addr)) s1);
     let s3 = snd (SPI_transfer p (uint8_t (signed_drop_bit 8 addr)) s2);
     let s4 = snd (SPI_transfer p (uint8_t addr) s3);
     let s5 = snd (SPI_transfer p 0 s4);
     let (buf', s6) = readBytes_loop p 0 (unat len) buf s5;
     Some (buf', unselect s6)
   }"

subsection \<open>Writing\<close>

definition writeByte :: "platform \<Rightarrow> long \<Rightarrow> byte \<Rightarrow> flash \<Rightarrow> flash option" where
  "writeByte p addr byt s = do {
     s1 \<leftarrow> command p SPIFLASH_BYTEPAGEPROGRAM True s;
     let s2 = snd (SPI_transfer p (uint8_t (signed_drop_bit 16 addr)) s1);
     let s3 = snd (SPI_transfer p (uint8_t (signed_drop_bit 8 addr)) s2);
     let s4 = snd (SPI_transfer p (uint8_t addr) s3);
     let s5 = snd (SPI_transfer p byt s4);
     Some (unselect s5)
   }"

function writeBytes_loop :: "platform \<Rightarrow> nat \<Rightarrow> nat \<Rightarrow> (nat \<Rightarrow> byte) \<Rightarrow> flash \<Rightarrow> flash" where
  "writeBytes_loop p i len buf s =
     (if i < len
      then writeBytes_loop p (i + 1) len buf (snd (SPI_transfer p (buf i) s))
      else s)"
  by pat_completeness auto
termination
  by (relation "measure (\<lambda>(p, i, len, buf, s). len - i)") auto

declare writeBytes_loop.simps [simp del]

definition writeBytes ::
  "platform \<Rightarrow> long \<Rightarrow> (nat \<Rightarrow> byte) \<Rightarrow> word16 \<Rightarrow> flash \<Rightarrow> flash option" where
  "writeBytes p addr buf len s = do {
     s1 \<leftarrow> command p SPIFLASH_BYTEPAGEPROGRAM True s;
     let s2 = snd (SPI_transfer p (uint8_t (signed_drop_bit 16 addr)) s1);
     let s3 = snd (SPI_transfer p (uint8_t (signed_drop_bit 8 addr)) s2);
     let s4 = snd (SPI_transfer p (uint8_t addr) s3);
     let s5 = writeBytes_loop p 0 (unat len) buf s4;
     Some (unselect s5)
   }"

subsection \<open>Erasing\<close>

definition bulkErase :: "platform \<Rightarrow> flash \<Rightarrow> flash option" where
  "bulkErase p s = do {
     s1 \<leftarrow> command p SPIFLASH_CHIPERASE True s;
     Some (unselect s1)
   }"

definition blockErase4K :: "platform \<Rightarrow> long \<Rightarrow> flash \<Rightarrow> flash option" where
  "blockErase4K p addr s = do {
     s1 \<leftarrow> command p SPIFLASH_BLOCKERASE_4K True s;
     let s2 = snd (SPI_transfer p (uint8_t (signed_drop_bit 16 addr)) s1);
     let s3 = snd (SPI_transfer p (uint8_t (signed_drop_bit 8 addr)) s2);
     let s4 = snd (SPI_transfer p (uint8_t addr) s3);
     Some (unselect s4)
   }"

text \<open>\<^verbatim>\<open>for (int i = 0; i < 8; i++)\<close>, with the address advanced in the body.\<close>

function blockErase32K_loop :: "platform \<Rightarrow> nat \<Rightarrow> long \<Rightarrow> flash \<Rightarrow> flash option" where
  "blockErase32K_loop p i addr s =
     (if i < 8
      then do {
        s1 \<leftarrow> blockErase4K p addr s;
        blockErase32K_loop p (i + 1) (addr + 4096) s1
      }
      else Some s)"
  by pat_completeness auto
termination
  by (relation "measure (\<lambda>(p, i, addr, s). 8 - i)") auto

declare blockErase32K_loop.simps [simp del]

definition blockErase32K :: "platform \<Rightarrow> long \<Rightarrow> flash \<Rightarrow> flash option" where
  "blockErase32K p addr s = blockErase32K_loop p 0 addr s"

definition blockErase64K :: "platform \<Rightarrow> long \<Rightarrow> flash \<Rightarrow> flash option" where
  "blockErase64K p addr s = do {
     s1 \<leftarrow> command p SPIFLASH_BLOCKERASE_64K True s;
     let s2 = snd (SPI_transfer p (uint8_t (signed_drop_bit 16 addr)) s1);
     let s3 = snd (SPI_transfer p (uint8_t (signed_drop_bit 8 addr)) s2);
     let s4 = snd (SPI_transfer p (uint8_t addr) s3);
     Some (unselect s4)
   }"

function blockErase512K_loop :: "platform \<Rightarrow> nat \<Rightarrow> long \<Rightarrow> flash \<Rightarrow> flash option" where
  "blockErase512K_loop p i addr s =
     (if i < 8
      then do {
        s1 \<leftarrow> blockErase64K p addr s;
        blockErase512K_loop p (i + 1) (addr + 65536) s1
      }
      else Some s)"
  by pat_completeness auto
termination
  by (relation "measure (\<lambda>(p, i, addr, s). 8 - i)") auto

declare blockErase512K_loop.simps [simp del]

definition blockErase512K :: "platform \<Rightarrow> long \<Rightarrow> flash \<Rightarrow> flash option" where
  "blockErase512K p addr s = blockErase512K_loop p 0 addr s"

definition chipErase :: "platform \<Rightarrow> flash \<Rightarrow> flash option" where
  "chipErase p s = blockErase512K p 0 s"

subsection \<open>initialize\<close>

text \<open>
  \<^verbatim>\<open>_jedecID == 0 || readDeviceId() == _jedecID\<close>: the right operand runs only when
  the left one is false.
\<close>

definition initialize :: "platform \<Rightarrow> flash \<Rightarrow> (bool \<times> flash) option" where
  "initialize p s = do {
     let s1 = s\<lparr>m_SPCR := SPCR s\<rparr>;
     let s2 = s1\<lparr>m_SPSR := SPSR s1\<rparr>;
     let s3 = s2\<lparr>ss_output := True\<rparr>;
     let s4 = unselect s3;
     let s5 = wakeup s4;
     s6 \<leftarrow> while_busy p s5;
     (ok, s7) \<leftarrow> (if m_jedecID s6 = 0 then Some (True, s6)
                  else do { (devid, t) \<leftarrow> readDeviceId p s6; Some (devid = m_jedecID t, t) });
     if ok
     then do {
       s8 \<leftarrow> command p SPIFLASH_STATUSWRITE True s7;
       let s9 = snd (SPI_transfer p 0 s8);
       Some (True, unselect s9)
     }
     else Some (False, s7)
   }"

subsection \<open>Printing\<close>

definition Serial_out :: "serial_event \<Rightarrow> flash \<Rightarrow> flash" where
  "Serial_out e s = s\<lparr>serial := serial s @ [e]\<rparr>"

definition printStatus :: "platform \<Rightarrow> flash \<Rightarrow> flash" where
  "printStatus p s =
     (let s1 = select p s;
          s2 = snd (SPI_transfer p SPIFLASH_STATUSREAD s1);
          s3 = Serial_out (Print_str (CHR 0x0A # CHR 0x0D # ''Status Register 1 (Binary): '')) s2;
          (r1, s4) = SPI_transfer p 0 s3;
          s5 = Serial_out (Println_num r1 2) s4;
          s6 = snd (SPI_transfer p SPIFLASH_STATUSREAD2 s5);
          s7 = Serial_out (Print_str ''Status Register 2 (Binary): '') s6;
          (r2, s8) = SPI_transfer p 0 s7;
          s9 = Serial_out (Println_num r2 2) s8
      in unselect s9)"

text \<open>The local \<^verbatim>\<open>rdid\<close> is summed and never read; it is left out.\<close>

function printRDID_loop :: "platform \<Rightarrow> nat \<Rightarrow> flash \<Rightarrow> flash" where
  "printRDID_loop p i s =
     (if i < 320
      then (let (b, s1) = SPI_transfer p 0 s;
                s2 = (if i > 0 \<and> i mod 32 = 0 then Serial_out Println s1 else s1);
                s3 = (if b < 0x10 then Serial_out (Print_str ''0'') s2 else s2);
                s4 = Serial_out (Print_num b 16) s3;
                s5 = Serial_out (Print_str '' '') s4
            in printRDID_loop p (i + 1) s5)
      else s)"
  by pat_completeness auto
termination
  by (relation "measure (\<lambda>(p, i, s). 320 - i)") auto

declare printRDID_loop.simps [simp del]

definition printRDID :: "platform \<Rightarrow> flash \<Rightarrow> flash" where
  "printRDID p s =
     (let s1 = select p s;
          s2 = snd (SPI_transfer p SPIFLASH_IDREAD s1);
          s3 = printRDID_loop p 0 s2;
          s4 = Serial_out Println s3
      in unselect s4)"

subsection \<open>The constructor\<close>

text \<open>
  \<^verbatim>\<open>SPIFlashA(slaveSelectPin, jedecID = 0)\<close> stores its two arguments; the
  \<^verbatim>\<open>uint32_t\<close> identifier becomes a \<^verbatim>\<open>long\<close> with the same bits.
\<close>

definition SPIFlashA :: "byte \<Rightarrow> long \<Rightarrow> flash \<Rightarrow> flash" where
  "SPIFlashA slaveSelectPin jedecID s =
     (s\<lparr>m_slaveSelectPin := slaveSelectPin\<rparr>)\<lparr>m_jedecID := jedecID\<rparr>"

section \<open>The public interface as one function\<close>

text \<open>
  One constructor per public member function of the class, in the order of the header, and
  what each returns. \<open>call\<close> dispatches to the function of that name.
\<close>

datatype operation =
    Initialize
  | Command byte bool
  | ReadStatus
  | PrintStatus
  | PrintRDID
  | ReadByte long
  | ReadBytes long "nat \<Rightarrow> byte" word16
  | WriteByte long byte
  | WriteBytes long "nat \<Rightarrow> byte" word16
  | Busy
  | ChipErase
  | BulkErase
  | BlockErase4K long
  | BlockErase32K long
  | BlockErase64K long
  | BlockErase512K long
  | ReadDeviceId
  | ReadUniqueId
  | Sleep
  | Wakeup
  | End

datatype result =
    Void
  | Boolean bool
  | A_byte byte
  | A_long long
  | A_buffer "nat \<Rightarrow> byte"
  | A_pointer "byte list"

fun call :: "platform \<Rightarrow> operation \<Rightarrow> flash \<Rightarrow> (result \<times> flash) option" where
  "call p Initialize s = map_option (\<lambda>(b, s'). (Boolean b, s')) (initialize p s)"
| "call p (Command cmd isWrite) s = map_option (Pair Void) (command p cmd isWrite s)"
| "call p ReadStatus s = (let (b, s') = readStatus p s in Some (A_byte b, s'))"
| "call p PrintStatus s = Some (Void, printStatus p s)"
| "call p PrintRDID s = Some (Void, printRDID p s)"
| "call p (ReadByte addr) s = map_option (\<lambda>(b, s'). (A_byte b, s')) (readByte p addr s)"
| "call p (ReadBytes addr buf len) s =
     map_option (\<lambda>(b, s'). (A_buffer b, s')) (readBytes p addr buf len s)"
| "call p (WriteByte addr byt) s = map_option (Pair Void) (writeByte p addr byt s)"
| "call p (WriteBytes addr buf len) s = map_option (Pair Void) (writeBytes p addr buf len s)"
| "call p Busy s = (let (b, s') = busy p s in Some (Boolean b, s'))"
| "call p ChipErase s = map_option (Pair Void) (chipErase p s)"
| "call p BulkErase s = map_option (Pair Void) (bulkErase p s)"
| "call p (BlockErase4K addr) s = map_option (Pair Void) (blockErase4K p addr s)"
| "call p (BlockErase32K addr) s = map_option (Pair Void) (blockErase32K p addr s)"
| "call p (BlockErase64K addr) s = map_option (Pair Void) (blockErase64K p addr s)"
| "call p (BlockErase512K addr) s = map_option (Pair Void) (blockErase512K p addr s)"
| "call p ReadDeviceId s = map_option (\<lambda>(v, s'). (A_long v, s')) (readDeviceId p s)"
| "call p ReadUniqueId s = map_option (\<lambda>(v, s'). (A_pointer v, s')) (readUniqueId p s)"
| "call p Sleep s = Some (Void, sleep s)"
| "call p Wakeup s = Some (Void, wakeup s)"
| "call p End s = Some (Void, end_flash p s)"

section \<open>Reading the bus log\<close>

text \<open>The events an operation added to the log, given the state before and after.\<close>

definition emitted :: "flash \<Rightarrow> flash \<Rightarrow> bus_event list" where
  "emitted s s' = drop (length (trace s)) (trace s')"

text \<open>The opcodes in a log: the byte sent first after each falling edge of chip-select.\<close>

fun opcodes :: "bus_event list \<Rightarrow> byte list" where
  "opcodes (CS_Low # Xfer c r # es) = c # opcodes es"
| "opcodes (e # es) = opcodes es"
| "opcodes [] = []"

text \<open>
  \<open>transfers bs es\<close>: the events \<open>es\<close> are transfers sending exactly the bytes \<open>bs\<close>, then
  the rising edge. \<open>cs_span bs es\<close>: \<open>es\<close> is one complete chip-select span sending \<open>bs\<close>.
\<close>

fun transfers :: "byte list \<Rightarrow> bus_event list \<Rightarrow> bool" where
  "transfers [] es = (es = [CS_High])"
| "transfers (b # bs) (Xfer c r # es) = (c = b \<and> transfers bs es)"
| "transfers (b # bs) es = False"

fun cs_span :: "byte list \<Rightarrow> bus_event list \<Rightarrow> bool" where
  "cs_span bs (CS_Low # es) = transfers bs es"
| "cs_span bs es = False"

text \<open>
  One run of \<^verbatim>\<open>while (busy());\<close> on the bus: status reads, each a span of its own
  (opcode, then a zero byte to clock the status out), the busy bit set in every answer
  but the last, clear in the last.
\<close>

fun busy_poll_loop :: "bus_event list \<Rightarrow> bool" where
  "busy_poll_loop (CS_Low # Xfer c r1 # Xfer d r2 # CS_High # es) =
     (c = SPIFLASH_STATUSREAD \<and> d = 0 \<and>
      (if r2 AND 1 \<noteq> 0 then busy_poll_loop es else es = []))"
| "busy_poll_loop es = False"

text \<open>
  Chip-select discipline of a log, read from left to right with the flag ``asserted'':
  a falling edge only while deasserted, transfers only while asserted, deasserted at
  the end. Driving the pin high while it is high already is allowed (\<open>initialize\<close>
  does it first thing).
\<close>

fun cs_ok :: "bool \<Rightarrow> bus_event list \<Rightarrow> bool" where
  "cs_ok a [] = (\<not> a)"
| "cs_ok a (CS_Low # es) = (\<not> a \<and> cs_ok True es)"
| "cs_ok a (CS_High # es) = cs_ok False es"
| "cs_ok a (Xfer c r # es) = (a \<and> cs_ok True es)"

text \<open>
  What a command of the driver looks like on the bus. A read command: one busy loop, then
  the span of the command. A write or erase command: a busy loop, the write-enable in a
  span of its own, a second busy loop, then the span of the command.
\<close>

definition read_command_sequence :: "byte list \<Rightarrow> bus_event list \<Rightarrow> bool" where
  "read_command_sequence bs es \<longleftrightarrow>
     (\<exists>ps f. es = ps @ f \<and> busy_poll_loop ps \<and> cs_span bs f)"

definition write_command_sequence :: "byte list \<Rightarrow> bus_event list \<Rightarrow> bool" where
  "write_command_sequence bs es \<longleftrightarrow>
     (\<exists>ps1 w ps2 f. es = ps1 @ w @ ps2 @ f \<and>
        busy_poll_loop ps1 \<and> cs_span [SPIFLASH_WRITEENABLE] w \<and>
        busy_poll_loop ps2 \<and> cs_span bs f)"

text \<open>The part of a write sequence before the command's own span.\<close>

definition write_prefix :: "bus_event list \<Rightarrow> bool" where
  "write_prefix pre \<longleftrightarrow>
     (\<exists>ps1 w ps2. pre = ps1 @ w @ ps2 \<and> busy_poll_loop ps1 \<and>
        cs_span [SPIFLASH_WRITEENABLE] w \<and> busy_poll_loop ps2)"

text \<open>The three bytes the address-taking operations send after the opcode.\<close>

definition addr_bytes :: "long \<Rightarrow> byte list" where
  "addr_bytes addr =
     [uint8_t (signed_drop_bit 16 addr), uint8_t (signed_drop_bit 8 addr), uint8_t addr]"

text \<open>
  \<open>sends bs es\<close>: the events \<open>es\<close> are transfers sending exactly \<open>bs\<close>.
  \<open>in_span s pre bs s1\<close>: since state \<open>s\<close> the bus saw \<open>pre\<close>, then a falling edge and
  transfers sending \<open>bs\<close>; the span is still open in \<open>s1\<close>, and the members hold the
  registers of \<open>s\<close>. \<open>finished s s' es\<close>: since \<open>s\<close> the bus saw \<open>es\<close>; in \<open>s'\<close> the chip
  is deselected, interrupts are on and the registers are those of \<open>s\<close>. \<open>ss_radio\<close> is
  the first step of \<open>command\<close>, which touches port B only.
\<close>

definition ss_radio :: "platform \<Rightarrow> flash \<Rightarrow> flash" where
  "ss_radio p s =
     (if atmega32u4 p then (s\<lparr>DDRB := DDRB s OR 1\<rparr>)\<lparr>PORTB := PORTB s OR 1\<rparr> else s)"

fun sends :: "byte list \<Rightarrow> bus_event list \<Rightarrow> bool" where
  "sends [] es = (es = [])"
| "sends (b # bs) (Xfer c r # es) = (c = b \<and> sends bs es)"
| "sends (b # bs) es = False"

definition in_span :: "flash \<Rightarrow> bus_event list \<Rightarrow> byte list \<Rightarrow> flash \<Rightarrow> bool" where
  "in_span s pre bs s1 \<longleftrightarrow>
     (\<exists>xs. sends bs xs \<and> trace s1 = trace s @ pre @ CS_Low # xs) \<and>
     \<not> ss_high s1 \<and> m_SPCR s1 = SPCR s \<and> m_SPSR s1 = SPSR s \<and> m_jedecID s1 = m_jedecID s"

definition finished :: "flash \<Rightarrow> flash \<Rightarrow> bus_event list \<Rightarrow> bool" where
  "finished s s' es \<longleftrightarrow>
     ss_high s' \<and> interrupts_on s' \<and> SPCR s' = SPCR s \<and> SPSR s' = SPSR s \<and>
     m_jedecID s' = m_jedecID s \<and> trace s' = trace s @ es"

text \<open>
  The identifier a log shows being read: the three bytes received after the first
  JEDEC-ID opcode, assembled as \<open>readDeviceId\<close> assembles them.
\<close>

fun jedec_read :: "bus_event list \<Rightarrow> long option" where
  "jedec_read (CS_Low # Xfer c r # es) =
     (if c = SPIFLASH_IDREAD
      then (case es of
              Xfer d1 b1 # Xfer d2 b2 # Xfer d3 b3 # es' \<Rightarrow>
                Some (push_bit 16 (ucast b1) OR push_bit 8 (ucast b2) OR ucast b3)
            | _ \<Rightarrow> None)
      else jedec_read es)"
| "jedec_read (e # es) = jedec_read es"
| "jedec_read [] = None"

text \<open>
  What \<open>readDeviceId\<close> puts on the bus and returns: on the ATmega32U4 a busy loop first,
  then the span with the opcode and three zero bytes; the value is assembled from the
  three bytes received.
\<close>

definition id_read_sequence :: "platform \<Rightarrow> long \<Rightarrow> bus_event list \<Rightarrow> bool" where
  "id_read_sequence p v rd \<longleftrightarrow>
     (\<exists>pre r b1 b2 b3.
        rd = pre @ [CS_Low, Xfer SPIFLASH_IDREAD r, Xfer 0 b1, Xfer 0 b2, Xfer 0 b3, CS_High] \<and>
        (if atmega32u4 p then busy_poll_loop pre else pre = []) \<and>
        v = push_bit 16 (ucast b1) OR push_bit 8 (ucast b2) OR ucast b3)"

text \<open>A log that keeps the chip-select discipline and holds opcodes of the set \<open>C\<close> only.\<close>

definition tidy :: "byte set \<Rightarrow> bus_event list \<Rightarrow> bool" where
  "tidy C es \<longleftrightarrow> cs_ok False es \<and> set (opcodes es) \<subseteq> C"

text \<open>The opcodes of a log other than status reads and write-enables.\<close>

definition real_opcodes :: "bus_event list \<Rightarrow> byte list" where
  "real_opcodes es =
     filter (\<lambda>c. c \<noteq> SPIFLASH_STATUSREAD \<and> c \<noteq> SPIFLASH_WRITEENABLE) (opcodes es)"

text \<open>
  The opcodes each operation may put on the bus, and the operations that end with
  \<open>unselect\<close> (all but \<open>command\<close>, which leaves the span open for its caller, and
  \<open>sleep\<close>, \<open>wakeup\<close> and \<open>end\<close>, which do not touch the chip-select pin).
\<close>

fun op_opcodes :: "operation \<Rightarrow> byte set" where
  "op_opcodes Initialize =
     {SPIFLASH_STATUSREAD, SPIFLASH_IDREAD, SPIFLASH_WRITEENABLE, SPIFLASH_STATUSWRITE}"
| "op_opcodes (Command cmd isWrite) = {SPIFLASH_STATUSREAD, SPIFLASH_WRITEENABLE, cmd}"
| "op_opcodes ReadStatus = {SPIFLASH_STATUSREAD}"
| "op_opcodes PrintStatus = {SPIFLASH_STATUSREAD}"
| "op_opcodes PrintRDID = {SPIFLASH_IDREAD}"
| "op_opcodes (ReadByte addr) = {SPIFLASH_STATUSREAD, SPIFLASH_ARRAYREADLOWFREQ}"
| "op_opcodes (ReadBytes addr buf len) = {SPIFLASH_STATUSREAD, SPIFLASH_ARRAYREAD}"
| "op_opcodes (WriteByte addr byt) =
     {SPIFLASH_STATUSREAD, SPIFLASH_WRITEENABLE, SPIFLASH_BYTEPAGEPROGRAM}"
| "op_opcodes (WriteBytes addr buf len) =
     {SPIFLASH_STATUSREAD, SPIFLASH_WRITEENABLE, SPIFLASH_BYTEPAGEPROGRAM}"
| "op_opcodes Busy = {SPIFLASH_STATUSREAD}"
| "op_opcodes ChipErase =
     {SPIFLASH_STATUSREAD, SPIFLASH_WRITEENABLE, SPIFLASH_BLOCKERASE_64K}"
| "op_opcodes BulkErase = {SPIFLASH_STATUSREAD, SPIFLASH_WRITEENABLE, SPIFLASH_CHIPERASE}"
| "op_opcodes (BlockErase4K addr) =
     {SPIFLASH_STATUSREAD, SPIFLASH_WRITEENABLE, SPIFLASH_BLOCKERASE_4K}"
| "op_opcodes (BlockErase32K addr) =
     {SPIFLASH_STATUSREAD, SPIFLASH_WRITEENABLE, SPIFLASH_BLOCKERASE_4K}"
| "op_opcodes (BlockErase64K addr) =
     {SPIFLASH_STATUSREAD, SPIFLASH_WRITEENABLE, SPIFLASH_BLOCKERASE_64K}"
| "op_opcodes (BlockErase512K addr) =
     {SPIFLASH_STATUSREAD, SPIFLASH_WRITEENABLE, SPIFLASH_BLOCKERASE_64K}"
| "op_opcodes ReadDeviceId = {SPIFLASH_STATUSREAD, SPIFLASH_IDREAD}"
| "op_opcodes ReadUniqueId = {SPIFLASH_STATUSREAD, SPIFLASH_MACREAD}"
| "op_opcodes Sleep = {}"
| "op_opcodes Wakeup = {}"
| "op_opcodes End = {}"

fun closes_span :: "operation \<Rightarrow> bool" where
  "closes_span (Command cmd isWrite) = False"
| "closes_span Sleep = False"
| "closes_span Wakeup = False"
| "closes_span End = False"
| "closes_span op = True"

text \<open>
  The order of opcodes the driver produces for a write or erase command with opcode \<open>c\<close>:
  the status reads of a first busy loop, the write-enable, the status reads of a second
  busy loop, then \<open>c\<close>. \<open>write_on_bus bs es\<close>: the log \<open>es\<close> is a write sequence for the
  bytes \<open>bs\<close>, its opcodes are in that order, and exactly one of them is the write-enable.
\<close>

definition write_opcodes :: "byte \<Rightarrow> byte list \<Rightarrow> bool" where
  "write_opcodes c ops \<longleftrightarrow>
     (\<exists>m n. ops = replicate (Suc m) SPIFLASH_STATUSREAD @ SPIFLASH_WRITEENABLE #
                   replicate (Suc n) SPIFLASH_STATUSREAD @ [c])"

definition write_on_bus :: "byte list \<Rightarrow> bus_event list \<Rightarrow> bool" where
  "write_on_bus bs es \<longleftrightarrow>
     write_command_sequence bs es \<and> write_opcodes (hd bs) (opcodes es) \<and>
     count_list (opcodes es) SPIFLASH_WRITEENABLE = 1"

subsection \<open>One command sequence in a span\<close>

text \<open>
  The bytes sent in each chip-select span of a log: \<open>sent es\<close> is the bytes of the
  transfers at the head of \<open>es\<close>, and \<open>spans es\<close> lists them for every falling edge of
  the log, in order.
\<close>

fun sent :: "bus_event list \<Rightarrow> byte list" where
  "sent (Xfer c r # es) = c # sent es"
| "sent es = []"

fun spans :: "bus_event list \<Rightarrow> byte list list" where
  "spans [] = []"
| "spans (CS_Low # es) = sent es # spans es"
| "spans (e # es) = spans es"

text \<open>
  \<open>one_command bs\<close>: the bytes of a span are one command sequence, an opcode of the header
  followed by the operands of that opcode and nothing else, as the comments of the header
  and the operations of the driver give them. Nothing follows write enable, write disable
  and chip erase. After the two status reads, the JEDEC-ID read and the OTP read come zero
  bytes only, which clock the answer out. One byte follows write status, three address
  bytes follow a block erase, three address bytes and then the data follow page program.
  After the slow read come three address bytes and then zero bytes; the fast read has one
  more byte before the zeros (``Need to add 1 dummy byte after 3 address bytes''). A second
  opcode sent in the same span is not an operand of the first.
\<close>

definition zeros :: "byte list \<Rightarrow> bool" where
  "zeros bs \<longleftrightarrow> bs = replicate (length bs) 0"

fun one_command :: "byte list \<Rightarrow> bool" where
  "one_command [] = False"
| "one_command (c # bs) =
     (if c = SPIFLASH_WRITEENABLE \<or> c = SPIFLASH_WRITEDISABLE \<or> c = SPIFLASH_CHIPERASE
        then bs = []
      else if c = SPIFLASH_STATUSREAD \<or> c = SPIFLASH_STATUSREAD2 \<or> c = SPIFLASH_IDREAD \<or>
              c = SPIFLASH_MACREAD
        then zeros bs
      else if c = SPIFLASH_STATUSWRITE then length bs = 1
      else if c = SPIFLASH_BLOCKERASE_4K \<or> c = SPIFLASH_BLOCKERASE_64K then length bs = 3
      else if c = SPIFLASH_BYTEPAGEPROGRAM then 3 \<le> length bs
      else if c = SPIFLASH_ARRAYREADLOWFREQ then 3 \<le> length bs \<and> zeros (drop 3 bs)
      else if c = SPIFLASH_ARRAYREAD then 4 \<le> length bs \<and> zeros (drop 4 bs)
      else False)"

text \<open>A log that keeps the chip-select discipline with one command sequence in every span.\<close>

definition neat :: "bus_event list \<Rightarrow> bool" where
  "neat es \<longleftrightarrow> cs_ok False es \<and> list_all one_command (spans es)"

subsection \<open>The chip's side of a page program\<close>

text \<open>
  Modelled from the spec: what the flash chip does with a page program. The chip is
  hardware, there is no code for it in the repository. The specification says
  ``writeBytes wraps within a 256-byte page boundary rather than crossing into the next
  page''; the doc comment of \<^verbatim>\<open>writeBytes\<close> in the source gives the same warning (``if
  you write beyond a page boundary (or more than 256bytes), the bytes will wrap around and
  start overwriting at the beginning of that same page''). The first two address bytes
  name the page, the third the offset in it; each data byte is programmed at the current
  offset, and the offset, eight bits wide, advances by one, from 255 to 0. \<open>page_program\<close>
  lists the cells programmed with their data, in order.
\<close>

fun page_program :: "byte \<Rightarrow> byte \<Rightarrow> byte \<Rightarrow> byte list \<Rightarrow> ((byte \<times> byte \<times> byte) \<times> byte) list" where
  "page_program a2 a1 a0 [] = []"
| "page_program a2 a1 a0 (d # ds) = ((a2, a1, a0), d) # page_program a2 a1 (a0 + 1) ds"

text \<open>
  Modelled from the spec: the cells the chip programs on receiving the bytes of one span,
  none unless the span is a page program with its three address bytes.
\<close>

fun programmed :: "byte list \<Rightarrow> ((byte \<times> byte \<times> byte) \<times> byte) list" where
  "programmed (c # a2 # a1 # a0 # ds) =
     (if c = SPIFLASH_BYTEPAGEPROGRAM then page_program a2 a1 a0 ds else [])"
| "programmed bs = []"

text \<open>
  Modelled from the spec: the cells the chip programs over a whole bus log, span by span.
  This is where the chip model meets the driver: the log is the one the driver produced.
\<close>

definition chip_programs :: "bus_event list \<Rightarrow> ((byte \<times> byte \<times> byte) \<times> byte) list" where
  "chip_programs es = concat (map programmed (spans es))"

subsection \<open>When the busy loop ends\<close>

text \<open>
  The log after \<open>k\<close> status polls, and whether the next poll finds the chip busy. A chip is
  \<open>eventually_ready\<close> when, polled from any point on, it clears the busy bit at some poll.
\<close>

definition poll_reply :: "platform \<Rightarrow> bus_event list \<Rightarrow> byte" where
  "poll_reply p tr =
     miso p (tr @ [CS_Low, Xfer SPIFLASH_STATUSREAD (miso p (tr @ [CS_Low]))])"

definition poll_events :: "platform \<Rightarrow> bus_event list \<Rightarrow> bus_event list" where
  "poll_events p tr =
     [CS_Low, Xfer SPIFLASH_STATUSREAD (miso p (tr @ [CS_Low])),
      Xfer 0 (poll_reply p tr), CS_High]"

fun polls_trace :: "platform \<Rightarrow> bus_event list \<Rightarrow> nat \<Rightarrow> bus_event list" where
  "polls_trace p tr 0 = tr"
| "polls_trace p tr (Suc k) = polls_trace p (tr @ poll_events p tr) k"

definition busy_at :: "platform \<Rightarrow> bus_event list \<Rightarrow> nat \<Rightarrow> bool" where
  "busy_at p tr k \<longleftrightarrow> poll_reply p (polls_trace p tr k) AND 1 \<noteq> 0"

definition eventually_ready :: "platform \<Rightarrow> bool" where
  "eventually_ready p \<longleftrightarrow> (\<forall>tr. \<exists>k. \<not> busy_at p tr k)"

subsection \<open>The claim sentences, as written\<close>

text \<open>
  The order of opcodes the specification states for a write or erase command with opcode
  \<open>c\<close>: the status reads of one busy loop, then the write-enable, then \<open>c\<close> right after it.
\<close>

definition stated_write_opcodes :: "byte \<Rightarrow> byte list \<Rightarrow> bool" where
  "stated_write_opcodes c ops \<longleftrightarrow>
     takeWhile (\<lambda>b. b = SPIFLASH_STATUSREAD) ops \<noteq> [] \<and>
     dropWhile (\<lambda>b. b = SPIFLASH_STATUSREAD) ops = [SPIFLASH_WRITEENABLE, c]"

text \<open>
  The three address bytes as the specification writes them: \<open>(addr >> 16) mod 256\<close>,
  \<open>(addr >> 8) mod 256\<close>, \<open>addr mod 256\<close>, on the address as an unsigned 32-bit number.
\<close>

definition stated_address_bytes :: "long \<Rightarrow> byte list" where
  "stated_address_bytes addr =
     [of_nat (unat addr div 2 ^ 16 mod 256),
      of_nat (unat addr div 2 ^ 8 mod 256),
      of_nat (unat addr mod 256)]"

text \<open>Calling \<open>f\<close> at each address of a list in turn, stopping where a call does not return.\<close>

fun call_each :: "(long \<Rightarrow> flash \<Rightarrow> flash option) \<Rightarrow> long list \<Rightarrow> flash \<Rightarrow> flash option" where
  "call_each f [] s = Some s"
| "call_each f (a # as) s = f a s \<bind> call_each f as"

subsection \<open>Concrete platforms and states\<close>

text \<open>
  The register effects of the AVR \<^verbatim>\<open>SPI\<close> library, and three chips: one that is never
  busy and answers zero; one that answers \<open>0xFF\<close> to the first status poll; one that is
  never busy and answers the JEDEC-ID opcode with \<open>01 20 18\<close>.
\<close>

fun jedec_chip :: "bus_event list \<Rightarrow> byte" where
  "jedec_chip (Xfer c r # es) =
     (if c = SPIFLASH_IDREAD then 0x01
      else if c = 0 then
        (case es of
           Xfer d r' # es' \<Rightarrow>
             (if d = SPIFLASH_IDREAD then 0x20
              else if d = 0 then
                (case es' of
                   Xfer e r'' # es'' \<Rightarrow> (if e = SPIFLASH_IDREAD then 0x18 else 0)
                 | _ \<Rightarrow> 0)
              else 0)
         | _ \<Rightarrow> 0)
      else 0)"
| "jedec_chip es = 0"

definition avr :: "(bus_event list \<Rightarrow> byte) \<Rightarrow> platform" where
  "avr chip =
     \<lparr>atmega32u4 = False,
      setDataMode_MODE0 = (\<lambda>(c, r). (c AND NOT 0x0C, r)),
      setBitOrder_MSBFIRST = (\<lambda>(c, r). (c AND NOT 0x20, r)),
      setClockDivider_DIV4 = (\<lambda>(c, r). (c AND NOT 0x03, r AND NOT 0x01)),
      SPI_begin = (\<lambda>(c, r). (c OR 0x50, r)),
      SPI_end = (\<lambda>(c, r). (c AND NOT 0x40, r)),
      miso = chip\<rparr>"

definition idle_chip :: platform where
  "idle_chip = avr (\<lambda>tr. 0)"

definition slow_chip :: platform where
  "slow_chip = avr (\<lambda>tr. if length tr < 4 then 0xFF else 0)"

definition spansion_chip :: platform where
  "spansion_chip = avr (\<lambda>tr. jedec_chip (rev tr))"

definition power_on :: flash where
  "power_on =
     \<lparr>m_slaveSelectPin = 0, m_jedecID = 0, m_SPCR = 0, m_SPSR = 0,
      UNIQUEID = replicate 12 0, SPCR = 0x0C, SPSR = 0x01, DDRB = 0, PORTB = 0,
      interrupts_on = True, ss_high = True, ss_output = False, trace = [], serial = []\<rparr>"

section \<open>Properties\<close>


subsection \<open>The primitives, field by field\<close>

lemma select_fields [simp]:
  "trace (select p s) = trace s @ [CS_Low]" "ss_high (select p s) = False"
  "m_SPCR (select p s) = SPCR s" "m_SPSR (select p s) = SPSR s"
  "m_jedecID (select p s) = m_jedecID s"
  by (simp_all add: select_def spi_call_def digitalWrite_def Let_def)

lemma unselect_fields [simp]:
  "trace (unselect s) = trace s @ [CS_High]" "ss_high (unselect s) = True"
  "interrupts_on (unselect s) = True"
  "SPCR (unselect s) = m_SPCR s" "SPSR (unselect s) = m_SPSR s"
  "m_SPCR (unselect s) = m_SPCR s" "m_SPSR (unselect s) = m_SPSR s"
  "m_jedecID (unselect s) = m_jedecID s"
  by (simp_all add: unselect_def digitalWrite_def Let_def)

lemma transfer_fields [simp]:
  "fst (SPI_transfer p b s) = miso p (trace s)"
  "trace (snd (SPI_transfer p b s)) = trace s @ [Xfer b (miso p (trace s))]"
  "ss_high (snd (SPI_transfer p b s)) = ss_high s"
  "m_SPCR (snd (SPI_transfer p b s)) = m_SPCR s" "m_SPSR (snd (SPI_transfer p b s)) = m_SPSR s"
  "SPCR (snd (SPI_transfer p b s)) = SPCR s" "SPSR (snd (SPI_transfer p b s)) = SPSR s"
  "m_jedecID (snd (SPI_transfer p b s)) = m_jedecID s"
  "interrupts_on (snd (SPI_transfer p b s)) = interrupts_on s"
  by (simp_all add: SPI_transfer_def Let_def)

lemma Serial_out_fields [simp]:
  "trace (Serial_out e s) = trace s" "ss_high (Serial_out e s) = ss_high s"
  "m_SPCR (Serial_out e s) = m_SPCR s" "m_SPSR (Serial_out e s) = m_SPSR s"
  "m_jedecID (Serial_out e s) = m_jedecID s"
  by (simp_all add: Serial_out_def)

subsection \<open>Open and closed spans\<close>

lemma sends_append: "sends as xs \<Longrightarrow> sends bs ys \<Longrightarrow> sends (as @ bs) (xs @ ys)"
  by (induction as xs rule: sends.induct) auto

lemma sends_transfers: "sends bs xs \<Longrightarrow> transfers bs (xs @ [CS_High])"
  by (induction bs xs rule: sends.induct) auto

lemma finished_refl: "ss_high s \<Longrightarrow> interrupts_on s \<Longrightarrow> finished s s []"
  by (simp add: finished_def)

lemma finished_trans:
  "finished s s' es \<Longrightarrow> finished s' s'' es' \<Longrightarrow> finished s s'' (es @ es')"
  by (simp add: finished_def)

lemma select_in_span: "in_span s [] [] (select p s)"
  by (simp add: in_span_def)

lemma select_after: "finished s s2 pre \<Longrightarrow> in_span s pre [] (select p s2)"
  by (simp add: in_span_def finished_def)

lemma transfer_in_span:
  assumes "in_span s pre bs s1"
  shows "in_span s pre (bs @ [b]) (snd (SPI_transfer p b s1))"
proof -
  from assms obtain xs where xs: "sends bs xs" "trace s1 = trace s @ pre @ CS_Low # xs"
    by (auto simp: in_span_def)
  have "sends (bs @ [b]) (xs @ [Xfer b (miso p (trace s1))])"
    by (rule sends_append[OF xs(1)]) simp
  moreover have "trace (snd (SPI_transfer p b s1)) =
      trace s @ pre @ CS_Low # (xs @ [Xfer b (miso p (trace s1))])"
    using xs(2) by simp
  ultimately have "\<exists>ys. sends (bs @ [b]) ys \<and>
      trace (snd (SPI_transfer p b s1)) = trace s @ pre @ CS_Low # ys"
    by blast
  with assms show ?thesis unfolding in_span_def by simp
qed

lemma Serial_in_span: "in_span s pre bs s1 \<Longrightarrow> in_span s pre bs (Serial_out e s1)"
  by (simp add: in_span_def)

lemma unselect_in_span:
  assumes "in_span s pre bs s1"
  shows "\<exists>f. cs_span bs f \<and> finished s (unselect s1) (pre @ f)"
proof -
  from assms obtain xs where xs: "sends bs xs" "trace s1 = trace s @ pre @ CS_Low # xs"
    by (auto simp: in_span_def)
  have "cs_span bs (CS_Low # xs @ [CS_High])"
    using sends_transfers[OF xs(1)] by simp
  moreover have "finished s (unselect s1) (pre @ CS_Low # xs @ [CS_High])"
    using assms xs(2) by (simp add: in_span_def finished_def)
  ultimately show ?thesis by blast
qed

subsection \<open>The busy loop\<close>

lemma busy_fst: "fst (busy p s) = (poll_reply p (trace s) AND 1 \<noteq> 0)"
  by (simp add: busy_def readStatus_def poll_reply_def split_beta Let_def)

lemma busy_snd: "finished s (snd (busy p s)) (poll_events p (trace s))"
  by (simp add: busy_def readStatus_def poll_reply_def poll_events_def split_beta Let_def finished_def)

lemma while_busy_post:
  "while_busy p s = Some s' \<Longrightarrow> \<exists>ps. busy_poll_loop ps \<and> finished s s' ps"
proof (induction rule: while_busy.raw_induct[rotated 1, consumes 1, case_names step])
  case (step wb p s s')
  let ?s1 = "snd (busy p s)" and ?pe = "poll_events p (trace s)"
  show ?case
  proof (cases "poll_reply p (trace s) AND 1 \<noteq> 0")
    case True
    with step(2) have "wb p ?s1 = Some s'"
      by (simp add: busy_fst Let_def)
    from step(1)[OF this] obtain ps where ps: "busy_poll_loop ps"
      and s': "finished ?s1 s' ps" by blast
    from True ps have "busy_poll_loop (?pe @ ps)"
      by (simp add: poll_events_def)
    with finished_trans[OF busy_snd s'] show ?thesis by blast
  next
    case False
    with step(2) have "s' = ?s1"
      by (simp add: busy_fst Let_def)
    moreover from False have "busy_poll_loop ?pe"
      by (simp add: poll_events_def)
    ultimately show ?thesis using busy_snd by blast
  qed
qed

lemma while_busy_returns_aux:
  "\<not> busy_at p (trace s) k \<Longrightarrow> \<exists>s'. while_busy p s = Some s'"
proof (induction k arbitrary: s)
  case 0
  then show ?case by (subst while_busy.simps) (simp add: busy_fst busy_at_def Let_def)
next
  case (Suc k)
  show ?case
  proof (cases "poll_reply p (trace s) AND 1 \<noteq> 0")
    case True
    have "trace (snd (busy p s)) = trace s @ poll_events p (trace s)"
      using busy_snd[of s p] by (simp add: finished_def)
    with Suc.prems have "\<not> busy_at p (trace (snd (busy p s))) k"
      by (simp add: busy_at_def)
    from Suc.IH[OF this] obtain s' where "while_busy p (snd (busy p s)) = Some s'" by blast
    with True show ?thesis by (subst while_busy.simps) (simp add: busy_fst Let_def)
  next
    case False
    then show ?thesis by (subst while_busy.simps) (simp add: busy_fst Let_def)
  qed
qed

lemma while_busy_returns: "eventually_ready p \<Longrightarrow> \<exists>s'. while_busy p s = Some s'"
  unfolding eventually_ready_def using while_busy_returns_aux by blast

subsection \<open>What command leaves behind\<close>


lemma ss_radio_idem: "ss_radio p (ss_radio p s) = ss_radio p s"
  by (simp add: ss_radio_def)

lemma ss_radio_fields [simp]:
  "SPCR (ss_radio p s) = SPCR s" "SPSR (ss_radio p s) = SPSR s"
  "trace (ss_radio p s) = trace s" "m_jedecID (ss_radio p s) = m_jedecID s"
  by (simp_all add: ss_radio_def)

lemma finished_ss_radio [simp]: "finished (ss_radio p s) s' es = finished s s' es"
  by (simp add: finished_def)

lemma in_span_ss_radio [simp]: "in_span (ss_radio p s) pre bs s1 = in_span s pre bs s1"
  by (simp add: in_span_def)

lemma command_read_post:
  assumes "command p c False s = Some s'"
  shows "\<exists>pre. busy_poll_loop pre \<and> in_span s pre [c] s'"
proof -
  from assms obtain s2 where wb: "while_busy p (ss_radio p s) = Some s2"
    and s': "s' = snd (SPI_transfer p c (select p s2))"
    by (auto simp: command.simps[of p c False s] ss_radio_def Let_def split: bind_splits if_splits)
  from while_busy_post[OF wb] obtain ps where ps: "busy_poll_loop ps"
    and s2: "finished s s2 ps" by auto
  from transfer_in_span[OF select_after[OF s2], where p=p and b=c] ps show ?thesis
    unfolding s' by auto
qed

lemma command_write_post:
  assumes "command p c True s = Some s'"
  shows "\<exists>pre. write_prefix pre \<and> in_span s pre [c] s'"
proof -
  from assms obtain t s2 where we: "command p SPIFLASH_WRITEENABLE False (ss_radio p s) = Some t"
    and wb: "while_busy p (unselect t) = Some s2"
    and s': "s' = snd (SPI_transfer p c (select p s2))"
    by (auto simp: command.simps[of p c True s] ss_radio_def Let_def split: bind_splits if_splits)
  from command_read_post[OF we] obtain ps1 where ps1: "busy_poll_loop ps1"
    and t: "in_span s ps1 [SPIFLASH_WRITEENABLE] t"
    by auto
  from unselect_in_span[OF t] obtain w where w: "cs_span [SPIFLASH_WRITEENABLE] w"
    and u: "finished s (unselect t) (ps1 @ w)" by blast
  from while_busy_post[OF wb] obtain ps2 where ps2: "busy_poll_loop ps2"
    and s2: "finished (unselect t) s2 ps2" by blast
  from finished_trans[OF u s2] have "finished s s2 (ps1 @ w @ ps2)" by simp
  from transfer_in_span[OF select_after[OF this], where p=p and b=c]
  have "in_span s (ps1 @ w @ ps2) [c] s'" unfolding s' by simp
  moreover from ps1 w ps2 have "write_prefix (ps1 @ w @ ps2)"
    unfolding write_prefix_def by blast
  ultimately show ?thesis by blast
qed

lemma write_sequenceI:
  "write_prefix pre \<Longrightarrow> cs_span bs f \<Longrightarrow> write_command_sequence bs (pre @ f)"
  unfolding write_prefix_def write_command_sequence_def by fastforce

lemma read_sequenceI:
  "busy_poll_loop pre \<Longrightarrow> cs_span bs f \<Longrightarrow> read_command_sequence bs (pre @ f)"
  unfolding read_command_sequence_def by auto

lemma addr_in_span:
  "in_span s pre bs s1 \<Longrightarrow>
   in_span s pre (bs @ addr_bytes addr)
     (snd (SPI_transfer p (uint8_t addr)
       (snd (SPI_transfer p (uint8_t (signed_drop_bit 8 addr))
         (snd (SPI_transfer p (uint8_t (signed_drop_bit 16 addr)) s1))))))"
  using transfer_in_span[OF transfer_in_span[OF transfer_in_span], of s pre bs s1]
  by (simp add: addr_bytes_def)

lemma write_finish:
  assumes "write_prefix pre" and "in_span s pre bs s1"
  shows "\<exists>es. finished s (unselect s1) es \<and> write_command_sequence bs es"
  using unselect_in_span[OF assms(2)] write_sequenceI[OF assms(1)] by blast

lemma read_finish:
  assumes "busy_poll_loop pre" and "in_span s pre bs s1"
  shows "\<exists>es. finished s (unselect s1) es \<and> read_command_sequence bs es"
  using unselect_in_span[OF assms(2)] read_sequenceI[OF assms(1)] by blast

lemma blockErase4K_post:
  assumes "blockErase4K p addr s = Some s'"
  shows "\<exists>es. finished s s' es \<and> write_command_sequence (SPIFLASH_BLOCKERASE_4K # addr_bytes addr) es"
proof -
  from assms obtain s1 where c: "command p SPIFLASH_BLOCKERASE_4K True s = Some s1"
    and s': "s' = unselect (snd (SPI_transfer p (uint8_t addr)
       (snd (SPI_transfer p (uint8_t (signed_drop_bit 8 addr))
         (snd (SPI_transfer p (uint8_t (signed_drop_bit 16 addr)) s1))))))"
    by (auto simp: blockErase4K_def Let_def split: bind_splits)
  from command_write_post[OF c] obtain pre where pre: "write_prefix pre"
    and s1: "in_span s pre [SPIFLASH_BLOCKERASE_4K] s1" by blast
  from write_finish[OF pre addr_in_span[OF s1]] show ?thesis unfolding s' by simp
qed

subsection \<open>Loops inside a span\<close>

lemma in_span_UNIQUEID [simp]:
  "in_span s pre bs (s1\<lparr>UNIQUEID := u\<rparr>) = in_span s pre bs s1"
  by (simp add: in_span_def)

lemma writeBytes_loop_in_span:
  "in_span s pre bs s1 \<Longrightarrow>
   in_span s pre (bs @ map buf [i..<len]) (writeBytes_loop p i len buf s1)"
proof (induction p i len buf s1 arbitrary: bs rule: writeBytes_loop.induct)
  case (1 p i len buf s1)
  show ?case
  proof (cases "i < len")
    case True
    from "1.IH"[OF True transfer_in_span[OF "1.prems"]] True show ?thesis
      by (subst writeBytes_loop.simps) (simp add: upt_conv_Cons)
  next
    case False
    with "1.prems" show ?thesis by (subst writeBytes_loop.simps) simp
  qed
qed

lemma readBytes_loop_in_span:
  "in_span s pre bs s1 \<Longrightarrow>
   in_span s pre (bs @ replicate (len - i) 0) (snd (readBytes_loop p i len buf s1))"
proof (induction p i len buf s1 arbitrary: bs rule: readBytes_loop.induct)
  case (1 p i len buf s1)
  show ?case
  proof (cases "i < len")
    case True
    then have r: "replicate (len - i) (0::byte) = 0 # replicate (len - (i + 1)) 0"
      by (cases "len - i") (auto simp: Suc_diff_Suc)
    have step: "readBytes_loop p i len buf s1 =
        readBytes_loop p (i + 1) len (buf(i := fst (SPI_transfer p 0 s1)))
          (snd (SPI_transfer p 0 s1))"
      using True by (subst readBytes_loop.simps) (simp add: split_beta)
    from "1.IH"[OF True refl prod.collapse transfer_in_span[OF "1.prems"]]
    show ?thesis unfolding step r by (simp add: fun_upd_def)
  next
    case False
    with "1.prems" show ?thesis by (subst readBytes_loop.simps) simp
  qed
qed

lemma readUniqueId_loop_in_span:
  "in_span s pre bs s1 \<Longrightarrow>
   in_span s pre (bs @ replicate (12 - i) 0) (readUniqueId_loop p i s1)"
proof (induction p i s1 arbitrary: bs rule: readUniqueId_loop.induct)
  case (1 p i s1)
  show ?case
  proof (cases "i < 12")
    case True
    then have r: "replicate (12 - i) (0::byte) = 0 # replicate (12 - (i + 1)) 0"
      by (cases "12 - i") (auto simp: Suc_diff_Suc)
    have sp: "in_span s pre (bs @ [0])
       ((snd (SPI_transfer p 0 s1))\<lparr>UNIQUEID := (UNIQUEID (snd (SPI_transfer p 0 s1)))[i := fst (SPI_transfer p 0 s1)]\<rparr>)"
      using transfer_in_span[OF "1.prems"] by simp
    have step: "readUniqueId_loop p i s1 =
        readUniqueId_loop p (i + 1)
          ((snd (SPI_transfer p 0 s1))\<lparr>UNIQUEID :=
             (UNIQUEID (snd (SPI_transfer p 0 s1)))[i := fst (SPI_transfer p 0 s1)]\<rparr>)"
      using True by (subst readUniqueId_loop.simps) (simp add: split_beta)
    from "1.IH"[OF True refl prod.collapse sp]
    show ?thesis unfolding step r by simp
  next
    case False
    with "1.prems" show ?thesis by (subst readUniqueId_loop.simps) simp
  qed
qed

lemma printRDID_loop_in_span:
  "in_span s pre bs s1 \<Longrightarrow>
   in_span s pre (bs @ replicate (320 - i) 0) (printRDID_loop p i s1)"
proof (induction p i s1 arbitrary: bs rule: printRDID_loop.induct)
  case (1 p i s1)
  show ?case
  proof (cases "i < 320")
    case True
    then have r: "replicate (320 - i) (0::byte) = 0 # replicate (320 - (i + 1)) 0"
      by (cases "320 - i") (auto simp: Suc_diff_Suc)
    let ?b = "fst (SPI_transfer p 0 s1)" and ?t1 = "snd (SPI_transfer p 0 s1)"
    let ?t2 = "if i > 0 \<and> i mod 32 = 0 then Serial_out Println ?t1 else ?t1"
    let ?t3 = "if ?b < 0x10 then Serial_out (Print_str ''0'') ?t2 else ?t2"
    let ?t5 = "Serial_out (Print_str '' '') (Serial_out (Print_num ?b 16) ?t3)"
    have sp: "in_span s pre (bs @ [0]) ?t5"
      using transfer_in_span[OF "1.prems", of 0 p] by (auto intro!: Serial_in_span)
    have step: "printRDID_loop p i s1 = printRDID_loop p (i + 1) ?t5"
      using True by (subst printRDID_loop.simps) (simp add: split_beta Let_def)
    from "1.IH"[OF True refl prod.collapse refl refl refl refl sp]
    show ?thesis unfolding step r by simp
  next
    case False
    with "1.prems" show ?thesis by (subst printRDID_loop.simps) simp
  qed
qed

subsection \<open>Operations that open the span themselves\<close>

lemma span_finish:
  assumes "in_span s [] bs s1"
  shows "\<exists>es. finished s (unselect s1) es \<and> cs_span bs es"
  using unselect_in_span[OF assms] by auto

lemma readStatus_post:
  "\<exists>es. finished s (snd (readStatus p s)) es \<and> cs_span [SPIFLASH_STATUSREAD, 0] es"
proof -
  have "in_span s [] ([] @ [SPIFLASH_STATUSREAD] @ [0])
     (snd (SPI_transfer p 0 (snd (SPI_transfer p SPIFLASH_STATUSREAD (select p s)))))"
    using transfer_in_span[OF transfer_in_span[OF select_in_span]] by simp
  from span_finish[OF this] show ?thesis
    by (simp add: readStatus_def split_beta Let_def)
qed

lemma busy_post:
  "\<exists>es. finished s (snd (busy p s)) es \<and> cs_span [SPIFLASH_STATUSREAD, 0] es"
  using readStatus_post[of s p] by (simp add: busy_def split_beta)

lemma printStatus_post:
  "\<exists>es. finished s (printStatus p s) es \<and>
        cs_span [SPIFLASH_STATUSREAD, 0, SPIFLASH_STATUSREAD2, 0] es"
proof -
  let ?s2 = "snd (SPI_transfer p SPIFLASH_STATUSREAD (select p s))"
  let ?s3 = "Serial_out (Print_str (CHR 0x0A # CHR 0x0D # ''Status Register 1 (Binary): '')) ?s2"
  let ?s5 = "Serial_out (Println_num (fst (SPI_transfer p 0 ?s3)) 2) (snd (SPI_transfer p 0 ?s3))"
  let ?s6 = "snd (SPI_transfer p SPIFLASH_STATUSREAD2 ?s5)"
  let ?s7 = "Serial_out (Print_str ''Status Register 2 (Binary): '') ?s6"
  let ?s9 = "Serial_out (Println_num (fst (SPI_transfer p 0 ?s7)) 2) (snd (SPI_transfer p 0 ?s7))"
  have 2: "in_span s [] [SPIFLASH_STATUSREAD] ?s2"
    using transfer_in_span[OF select_in_span] by simp
  have 5: "in_span s [] [SPIFLASH_STATUSREAD, 0] ?s5"
    using Serial_in_span[OF transfer_in_span[OF Serial_in_span[OF 2]]] by simp
  have 6: "in_span s [] [SPIFLASH_STATUSREAD, 0, SPIFLASH_STATUSREAD2] ?s6"
    using transfer_in_span[OF 5] by simp
  have 9: "in_span s [] [SPIFLASH_STATUSREAD, 0, SPIFLASH_STATUSREAD2, 0] ?s9"
    using Serial_in_span[OF transfer_in_span[OF Serial_in_span[OF 6]]] by simp
  from span_finish[OF 9] show ?thesis
    by (simp add: printStatus_def split_beta Let_def)
qed

lemma printRDID_post:
  "\<exists>es. finished s (printRDID p s) es \<and> cs_span (SPIFLASH_IDREAD # replicate 320 0) es"
proof -
  let ?s2 = "snd (SPI_transfer p SPIFLASH_IDREAD (select p s))"
  have "in_span s [] [SPIFLASH_IDREAD] ?s2"
    using transfer_in_span[OF select_in_span] by simp
  from Serial_in_span[OF printRDID_loop_in_span[OF this, of 0 p]]
  have "in_span s [] (SPIFLASH_IDREAD # replicate 320 0)
      (Serial_out Println (printRDID_loop p 0 ?s2))" by simp
  from span_finish[OF this] show ?thesis
    by (simp add: printRDID_def Let_def)
qed

subsection \<open>Operations built on command\<close>

lemma bulkErase_post:
  assumes "bulkErase p s = Some s'"
  shows "\<exists>es. finished s s' es \<and> write_command_sequence [SPIFLASH_CHIPERASE] es"
proof -
  from assms obtain s1 where c: "command p SPIFLASH_CHIPERASE True s = Some s1"
    and s': "s' = unselect s1"
    by (auto simp: bulkErase_def split: bind_splits)
  from command_write_post[OF c] obtain pre where pre: "write_prefix pre"
    and s1: "in_span s pre [SPIFLASH_CHIPERASE] s1" by blast
  from write_finish[OF pre s1] show ?thesis unfolding s' .
qed

lemma blockErase64K_post:
  assumes "blockErase64K p addr s = Some s'"
  shows "\<exists>es. finished s s' es \<and>
           write_command_sequence (SPIFLASH_BLOCKERASE_64K # addr_bytes addr) es"
proof -
  from assms obtain s1 where c: "command p SPIFLASH_BLOCKERASE_64K True s = Some s1"
    and s': "s' = unselect (snd (SPI_transfer p (uint8_t addr)
       (snd (SPI_transfer p (uint8_t (signed_drop_bit 8 addr))
         (snd (SPI_transfer p (uint8_t (signed_drop_bit 16 addr)) s1))))))"
    by (auto simp: blockErase64K_def Let_def split: bind_splits)
  from command_write_post[OF c] obtain pre where pre: "write_prefix pre"
    and s1: "in_span s pre [SPIFLASH_BLOCKERASE_64K] s1" by blast
  from write_finish[OF pre addr_in_span[OF s1]] show ?thesis unfolding s' by simp
qed

lemma writeByte_post:
  assumes "writeByte p addr byt s = Some s'"
  shows "\<exists>es. finished s s' es \<and>
           write_command_sequence (SPIFLASH_BYTEPAGEPROGRAM # addr_bytes addr @ [byt]) es"
proof -
  from assms obtain s1 where c: "command p SPIFLASH_BYTEPAGEPROGRAM True s = Some s1"
    and s': "s' = unselect (snd (SPI_transfer p byt (snd (SPI_transfer p (uint8_t addr)
       (snd (SPI_transfer p (uint8_t (signed_drop_bit 8 addr))
         (snd (SPI_transfer p (uint8_t (signed_drop_bit 16 addr)) s1))))))))"
    by (auto simp: writeByte_def Let_def split: bind_splits)
  from command_write_post[OF c] obtain pre where pre: "write_prefix pre"
    and s1: "in_span s pre [SPIFLASH_BYTEPAGEPROGRAM] s1" by blast
  from write_finish[OF pre transfer_in_span[OF addr_in_span[OF s1]]] show ?thesis
    unfolding s' by simp
qed

lemma writeBytes_post:
  assumes "writeBytes p addr buf len s = Some s'"
  shows "\<exists>es. finished s s' es \<and>
           write_command_sequence
             (SPIFLASH_BYTEPAGEPROGRAM # addr_bytes addr @ map buf [0..<unat len]) es"
proof -
  from assms obtain s1 where c: "command p SPIFLASH_BYTEPAGEPROGRAM True s = Some s1"
    and s': "s' = unselect (writeBytes_loop p 0 (unat len) buf (snd (SPI_transfer p (uint8_t addr)
       (snd (SPI_transfer p (uint8_t (signed_drop_bit 8 addr))
         (snd (SPI_transfer p (uint8_t (signed_drop_bit 16 addr)) s1)))))))"
    by (auto simp: writeBytes_def Let_def split: bind_splits)
  from command_write_post[OF c] obtain pre where pre: "write_prefix pre"
    and s1: "in_span s pre [SPIFLASH_BYTEPAGEPROGRAM] s1" by blast
  from write_finish[OF pre writeBytes_loop_in_span[OF addr_in_span[OF s1]]] show ?thesis
    unfolding s' by simp
qed

lemma readByte_post:
  assumes "readByte p addr s = Some (b, s')"
  shows "\<exists>es. finished s s' es \<and>
           read_command_sequence (SPIFLASH_ARRAYREADLOWFREQ # addr_bytes addr @ [0]) es"
proof -
  from assms obtain s1 where c: "command p SPIFLASH_ARRAYREADLOWFREQ False s = Some s1"
    and s': "s' = unselect (snd (SPI_transfer p 0 (snd (SPI_transfer p (uint8_t addr)
       (snd (SPI_transfer p (uint8_t (signed_drop_bit 8 addr))
         (snd (SPI_transfer p (uint8_t (signed_drop_bit 16 addr)) s1))))))))"
    by (auto simp: readByte_def Let_def split_beta split: bind_splits)
  from command_read_post[OF c] obtain pre where pre: "busy_poll_loop pre"
    and s1: "in_span s pre [SPIFLASH_ARRAYREADLOWFREQ] s1" by blast
  from read_finish[OF pre transfer_in_span[OF addr_in_span[OF s1]]] show ?thesis
    unfolding s' by simp
qed

lemma readBytes_post:
  assumes "readBytes p addr buf len s = Some (b, s')"
  shows "\<exists>es. finished s s' es \<and>
           read_command_sequence
             (SPIFLASH_ARRAYREAD # addr_bytes addr @ 0 # replicate (unat len) 0) es"
proof -
  from assms obtain s1 where c: "command p SPIFLASH_ARRAYREAD False s = Some s1"
    and s': "s' = unselect (snd (readBytes_loop p 0 (unat len) buf
       (snd (SPI_transfer p 0 (snd (SPI_transfer p (uint8_t addr)
       (snd (SPI_transfer p (uint8_t (signed_drop_bit 8 addr))
         (snd (SPI_transfer p (uint8_t (signed_drop_bit 16 addr)) s1))))))))))"
    by (auto simp: readBytes_def Let_def split_beta split: bind_splits)
  from command_read_post[OF c] obtain pre where pre: "busy_poll_loop pre"
    and s1: "in_span s pre [SPIFLASH_ARRAYREAD] s1" by blast
  from read_finish[OF pre readBytes_loop_in_span[OF transfer_in_span[OF addr_in_span[OF s1]],
      where i=0 and len="unat len" and p=p and buf=buf]]
  show ?thesis unfolding s' by simp
qed

lemma readUniqueId_post:
  assumes "readUniqueId p s = Some (b, s')"
  shows "\<exists>es. finished s s' es \<and>
           read_command_sequence (SPIFLASH_MACREAD # replicate 16 0) es"
proof -
  from assms obtain s1 where c: "command p SPIFLASH_MACREAD False s = Some s1"
    and s': "s' = unselect (readUniqueId_loop p 0
       (snd (SPI_transfer p 0 (snd (SPI_transfer p 0
       (snd (SPI_transfer p 0 (snd (SPI_transfer p 0 s1)))))))))"
    by (auto simp: readUniqueId_def Let_def split_beta split: bind_splits)
  from command_read_post[OF c] obtain pre where pre: "busy_poll_loop pre"
    and s1: "in_span s pre [SPIFLASH_MACREAD] s1" by blast
  have "replicate 16 (0::byte) = [0, 0, 0, 0] @ replicate 12 0"
    by (simp add: numeral_eq_Suc)
  with read_finish[OF pre readUniqueId_loop_in_span[OF
      transfer_in_span[OF transfer_in_span[OF transfer_in_span[OF transfer_in_span[OF s1]]]],
      where i=0 and p=p]]
  show ?thesis unfolding s' by simp
qed

lemma sends_single:
  assumes "sends [b] xs"
  shows "\<exists>r. xs = [Xfer b r]"
proof (cases xs)
  case Nil
  with assms show ?thesis by simp
next
  case (Cons x xs')
  with assms show ?thesis by (cases x) auto
qed

lemma readDeviceId_post:
  assumes "readDeviceId p s = Some (v, s')"
  shows "\<exists>es. finished s s' es \<and> id_read_sequence p v es"
proof -
  let ?s2 = "\<lambda>s1. snd (SPI_transfer p 0 s1)"
  from assms obtain s1 where
    c: "(if atmega32u4 p then command p SPIFLASH_IDREAD False s
         else Some (snd (SPI_transfer p SPIFLASH_IDREAD (select p s)))) = Some s1"
    and v: "v = (push_bit 16 (ucast (miso p (trace s1))) OR
                push_bit 8 (ucast (miso p (trace (?s2 s1))))) OR
                ucast (miso p (trace (?s2 (?s2 s1))))"
    and s': "s' = unselect (?s2 (?s2 (?s2 s1)))"
    by (auto simp: readDeviceId_def Let_def split_beta split: bind_splits)
  have "\<exists>pre. (if atmega32u4 p then busy_poll_loop pre else pre = []) \<and>
              in_span s pre [SPIFLASH_IDREAD] s1"
  proof (cases "atmega32u4 p")
    case True
    with c command_read_post[of p SPIFLASH_IDREAD s s1] show ?thesis by auto
  next
    case False
    with c have "s1 = snd (SPI_transfer p SPIFLASH_IDREAD (select p s))" by simp
    with transfer_in_span[OF select_in_span, where s=s and b=SPIFLASH_IDREAD and p=p] False
    show ?thesis by auto
  qed
  then obtain pre where pre: "if atmega32u4 p then busy_poll_loop pre else pre = []"
    and s1: "in_span s pre [SPIFLASH_IDREAD] s1" by blast
  from s1 obtain r where tr: "trace s1 = trace s @ pre @ [CS_Low, Xfer SPIFLASH_IDREAD r]"
    by (auto simp: in_span_def dest!: sends_single)
  let ?b1 = "miso p (trace s1)"
  let ?b2 = "miso p (trace (?s2 s1))"
  let ?b3 = "miso p (trace (?s2 (?s2 s1)))"
  let ?es = "pre @ [CS_Low, Xfer SPIFLASH_IDREAD r, Xfer 0 ?b1, Xfer 0 ?b2, Xfer 0 ?b3, CS_High]"
  have "finished s s' ?es"
    using s1 unfolding s' finished_def in_span_def by (simp add: tr)
  moreover have "id_read_sequence p v ?es"
    unfolding id_read_sequence_def using pre v by (auto simp: or.assoc)
  ultimately show ?thesis by blast
qed

subsection \<open>Chip-select discipline and opcodes of the sequences\<close>

lemma transfers_cs_ok: "transfers bs es \<Longrightarrow> cs_ok True es"
  by (induction bs es rule: transfers.induct) auto

lemma transfers_opcodes: "transfers bs es \<Longrightarrow> opcodes es = []"
  by (induction bs es rule: transfers.induct) auto

lemma transfers_Cons:
  assumes "transfers (c # bs) es"
  shows "\<exists>r es'. es = Xfer c r # es' \<and> transfers bs es'"
proof (cases es)
  case Nil
  with assms show ?thesis by simp
next
  case (Cons e es')
  with assms show ?thesis by (cases e) auto
qed

lemma cs_span_Cons:
  assumes "cs_span bs es"
  shows "\<exists>es'. es = CS_Low # es' \<and> transfers bs es'"
proof (cases es)
  case Nil
  with assms show ?thesis by simp
next
  case (Cons e es')
  with assms show ?thesis by (cases e) auto
qed

lemma cs_span_cs_ok:
  assumes "cs_span bs es"
  shows "cs_ok False es"
proof -
  from cs_span_Cons[OF assms] obtain es' where es: "es = CS_Low # es'"
    and t: "transfers bs es'" by blast
  show ?thesis unfolding es by (simp add: transfers_cs_ok[OF t])
qed

lemma cs_span_opcodes:
  assumes "cs_span (c # bs) es"
  shows "opcodes es = [c]"
proof -
  from cs_span_Cons[OF assms] obtain es' where es: "es = CS_Low # es'"
    and t: "transfers (c # bs) es'" by blast
  from transfers_Cons[OF t] obtain r es'' where es': "es' = Xfer c r # es''"
    and t': "transfers bs es''" by blast
  show ?thesis unfolding es es' by (simp add: transfers_opcodes[OF t'])
qed

lemma cs_ok_append: "cs_ok a xs \<Longrightarrow> cs_ok False ys \<Longrightarrow> cs_ok a (xs @ ys)"
  by (induction a xs rule: cs_ok.induct) auto

lemma opcodes_Xfer [simp]: "opcodes (Xfer c r # es) = opcodes es"
  by (cases es) auto

lemma opcodes_append: "cs_ok a xs \<Longrightarrow> opcodes (xs @ ys) = opcodes xs @ opcodes ys"
proof (induction a xs rule: cs_ok.induct)
  case (2 a es)
  then have ok: "cs_ok True es" by simp
  show ?case
  proof (cases es)
    case Nil
    with ok show ?thesis by simp
  next
    case (Cons e es')
    with 2 ok show ?thesis by (cases e) auto
  qed
qed auto

lemma poll_loop_cs_ok: "busy_poll_loop ps \<Longrightarrow> cs_ok False ps"
  by (induction ps rule: busy_poll_loop.induct) (auto split: if_splits)

lemma poll_loop_opcodes:
  "busy_poll_loop ps \<Longrightarrow> \<exists>n. opcodes ps = replicate (Suc n) SPIFLASH_STATUSREAD"
proof (induction ps rule: busy_poll_loop.induct)
  case (1 c r1 d r2 es)
  show ?case
  proof (cases "r2 AND 1 \<noteq> 0")
    case True
    with 1 obtain n where "opcodes es = replicate (Suc n) SPIFLASH_STATUSREAD" by auto
    with 1 True have "opcodes (CS_Low # Xfer c r1 # Xfer d r2 # CS_High # es) =
        replicate (Suc (Suc n)) SPIFLASH_STATUSREAD" by simp
    then show ?thesis by blast
  next
    case False
    with 1 have "opcodes (CS_Low # Xfer c r1 # Xfer d r2 # CS_High # es) =
        replicate (Suc 0) SPIFLASH_STATUSREAD" by simp
    then show ?thesis by blast
  qed
qed simp_all

lemma read_sequence_cs_ok:
  assumes "read_command_sequence bs es"
  shows "cs_ok False es"
proof -
  from assms obtain ps f where es: "es = ps @ f" and ps: "busy_poll_loop ps"
    and f: "cs_span bs f" unfolding read_command_sequence_def by blast
  show ?thesis unfolding es
    by (rule cs_ok_append[OF poll_loop_cs_ok[OF ps] cs_span_cs_ok[OF f]])
qed

lemma write_sequence_cs_ok:
  assumes "write_command_sequence bs es"
  shows "cs_ok False es"
proof -
  from assms obtain ps1 w ps2 f where es: "es = ps1 @ w @ ps2 @ f"
    and ps1: "busy_poll_loop ps1" and w: "cs_span [SPIFLASH_WRITEENABLE] w"
    and ps2: "busy_poll_loop ps2" and f: "cs_span bs f"
    unfolding write_command_sequence_def by blast
  show ?thesis unfolding es
    by (intro cs_ok_append poll_loop_cs_ok[OF ps1] cs_span_cs_ok[OF w]
        poll_loop_cs_ok[OF ps2] cs_span_cs_ok[OF f])
qed

lemma read_sequence_opcodes:
  assumes "read_command_sequence (c # bs) es"
  shows "\<exists>n. opcodes es = replicate (Suc n) SPIFLASH_STATUSREAD @ [c]"
proof -
  from assms obtain ps f where es: "es = ps @ f" and ps: "busy_poll_loop ps"
    and f: "cs_span (c # bs) f" unfolding read_command_sequence_def by blast
  from poll_loop_opcodes[OF ps] obtain n where
    n: "opcodes ps = replicate (Suc n) SPIFLASH_STATUSREAD" by blast
  have "opcodes es = opcodes ps @ opcodes f"
    unfolding es by (rule opcodes_append[OF poll_loop_cs_ok[OF ps]])
  with n cs_span_opcodes[OF f] show ?thesis by auto
qed

lemma write_sequence_opcodes:
  assumes "write_command_sequence (c # bs) es"
  shows "\<exists>m n. opcodes es =
           replicate (Suc m) SPIFLASH_STATUSREAD @ SPIFLASH_WRITEENABLE #
           replicate (Suc n) SPIFLASH_STATUSREAD @ [c]"
proof -
  from assms obtain ps1 w ps2 f where es: "es = ps1 @ w @ ps2 @ f"
    and ps1: "busy_poll_loop ps1" and w: "cs_span [SPIFLASH_WRITEENABLE] w"
    and ps2: "busy_poll_loop ps2" and f: "cs_span (c # bs) f"
    unfolding write_command_sequence_def by blast
  from poll_loop_opcodes[OF ps1] obtain m where
    m: "opcodes ps1 = replicate (Suc m) SPIFLASH_STATUSREAD" by blast
  from poll_loop_opcodes[OF ps2] obtain n where
    n: "opcodes ps2 = replicate (Suc n) SPIFLASH_STATUSREAD" by blast
  have "opcodes es = opcodes ps1 @ opcodes w @ opcodes ps2 @ opcodes f"
    unfolding es
    by (simp add: opcodes_append[OF poll_loop_cs_ok[OF ps1]]
        opcodes_append[OF cs_span_cs_ok[OF w]] opcodes_append[OF poll_loop_cs_ok[OF ps2]])
  with m n cs_span_opcodes[OF f] cs_span_opcodes[OF w] show ?thesis by auto
qed

lemma tidy_append: "tidy C xs \<Longrightarrow> tidy C ys \<Longrightarrow> tidy C (xs @ ys)"
  unfolding tidy_def by (simp add: opcodes_append[of False] cs_ok_append)

lemma tidy_mono: "tidy C es \<Longrightarrow> C \<subseteq> D \<Longrightarrow> tidy D es"
  unfolding tidy_def by blast

lemma tidy_poll_loop:
  assumes "busy_poll_loop ps"
  shows "tidy {SPIFLASH_STATUSREAD} ps"
proof -
  from poll_loop_opcodes[OF assms] obtain n where
    "opcodes ps = replicate (Suc n) SPIFLASH_STATUSREAD" by blast
  then have "set (opcodes ps) \<subseteq> {SPIFLASH_STATUSREAD}" by auto
  with poll_loop_cs_ok[OF assms] show ?thesis unfolding tidy_def by simp
qed

lemma tidy_span: "cs_span (c # bs) f \<Longrightarrow> tidy {c} f"
  unfolding tidy_def by (simp add: cs_span_cs_ok cs_span_opcodes)

lemma tidy_read:
  assumes "read_command_sequence (c # bs) es"
  shows "tidy {SPIFLASH_STATUSREAD, c} es"
proof -
  from read_sequence_opcodes[OF assms] obtain n where
    "opcodes es = replicate (Suc n) SPIFLASH_STATUSREAD @ [c]" by blast
  then have "set (opcodes es) \<subseteq> {SPIFLASH_STATUSREAD, c}" by auto
  with read_sequence_cs_ok[OF assms] show ?thesis unfolding tidy_def by simp
qed

lemma tidy_write:
  assumes "write_command_sequence (c # bs) es"
  shows "tidy {SPIFLASH_STATUSREAD, SPIFLASH_WRITEENABLE, c} es"
proof -
  from write_sequence_opcodes[OF assms] obtain m n where
    "opcodes es = replicate (Suc m) SPIFLASH_STATUSREAD @ SPIFLASH_WRITEENABLE #
           replicate (Suc n) SPIFLASH_STATUSREAD @ [c]" by blast
  then have "set (opcodes es) \<subseteq> {SPIFLASH_STATUSREAD, SPIFLASH_WRITEENABLE, c}" by auto
  with write_sequence_cs_ok[OF assms] show ?thesis unfolding tidy_def by simp
qed

subsection \<open>The address bytes\<close>

lemma uint8_shift:
  "n \<le> 24 \<Longrightarrow> uint8_t (signed_drop_bit n addr) = ucast (drop_bit n addr)"
  unfolding uint8_t_def
  by (rule bit_word_eqI) (auto simp: bit_ucast_iff bit_signed_drop_bit_iff bit_drop_bit_eq)

lemma ucast_drop_of_nat:
  "(ucast (drop_bit n (addr :: long)) :: byte) = of_nat (unat addr div 2 ^ n mod 256)"
proof -
  have "(ucast (drop_bit n addr) :: byte) = of_nat (unat (drop_bit n addr))"
    by transfer simp
  also have "unat (drop_bit n addr) = unat addr div 2 ^ n"
    by (simp add: unat_drop_bit_eq drop_bit_nat_def)
  also have "(of_nat (unat addr div 2 ^ n) :: byte) = of_nat (unat addr div 2 ^ n mod 256)"
    by (simp add: word_of_nat_eq_iff take_bit_eq_mod)
  finally show ?thesis .
qed

lemma addr_bytes_stated: "addr_bytes addr = stated_address_bytes addr"
  unfolding addr_bytes_def stated_address_bytes_def
  using uint8_shift[of 16 addr] uint8_shift[of 8 addr] uint8_shift[of 0 addr]
    ucast_drop_of_nat[of 16 addr] ucast_drop_of_nat[of 8 addr] ucast_drop_of_nat[of 0 addr]
  by simp

lemma three_bytes_value:
  fixes x :: nat
  shows "x div 65536 mod 256 * 65536 + x div 256 mod 256 * 256 + x mod 256 = x mod 16777216"
proof -
  have a: "x mod 16777216 = 256 * (x div 256 mod 65536) + x mod 256"
    using mod_mult2_eq[of x 256 65536] by simp
  have b: "x div 256 mod 65536 = 256 * (x div 256 div 256 mod 256) + x div 256 mod 256"
    using mod_mult2_eq[of "x div 256" 256 256] by simp
  have c: "x div 256 div 256 = x div 65536"
    by (simp add: div_mult2_eq)
  show ?thesis unfolding a b c by simp
qed

lemma stated_bytes_value:
  "stated_address_bytes addr = [b2, b1, b0] \<Longrightarrow>
   unat b2 * 65536 + unat b1 * 256 + unat b0 = unat addr mod 2 ^ 24"
  unfolding stated_address_bytes_def
  using three_bytes_value[of "unat addr"] by (auto simp: unat_of_nat)

subsection \<open>initialize\<close>

lemma emitted_finished: "finished s s' es \<Longrightarrow> emitted s s' = es"
  by (simp add: finished_def emitted_def)

lemma finished_jedecID: "finished s s' es \<Longrightarrow> m_jedecID s' = m_jedecID s"
  by (simp add: finished_def)

lemma initialize_post:
  assumes "initialize p s = Some (b, s')"
  shows "\<exists>ps0 rd w. finished s s' (CS_High # ps0 @ rd @ w) \<and> busy_poll_loop ps0 \<and>
           (if m_jedecID s = 0 then rd = [] \<and> b
            else \<exists>v. id_read_sequence p v rd \<and> b = (v = m_jedecID s)) \<and>
           (if b then write_command_sequence [SPIFLASH_STATUSWRITE, 0] w else w = [])"
proof -
  define s5 where
    "s5 = wakeup (unselect (s\<lparr>m_SPCR := SPCR s, m_SPSR := SPSR s, ss_output := True\<rparr>))"
  have f5: "finished s s5 [CS_High]"
    by (simp add: s5_def wakeup_def finished_def)
  define check where "check s6 =
     (if m_jedecID s6 = 0 then Some (True, s6)
      else readDeviceId p s6 \<bind> (\<lambda>(devid, t). Some (devid = m_jedecID t, t)))" for s6
  define unprotect where "unprotect ok s7 =
     (if ok then command p SPIFLASH_STATUSWRITE True s7 \<bind>
                 (\<lambda>s8. let s9 = snd (SPI_transfer p 0 s8) in Some (True, unselect s9))
      else Some (False, s7))" for ok s7
  have init: "initialize p s =
      while_busy p s5 \<bind> (\<lambda>s6. check s6 \<bind> (\<lambda>(ok, s7). unprotect ok s7))"
    by (simp add: initialize_def s5_def check_def unprotect_def Let_def)
  from assms obtain s6 ok s7 where wb: "while_busy p s5 = Some s6"
    and chk: "check s6 = Some (ok, s7)" and unp: "unprotect ok s7 = Some (b, s')"
    unfolding init by (auto split: bind_splits)
  from while_busy_post[OF wb] obtain ps0 where ps0: "busy_poll_loop ps0"
    and f6: "finished s5 s6 ps0" by blast
  have j6: "m_jedecID s6 = m_jedecID s"
    using finished_jedecID[OF f5] finished_jedecID[OF f6] by simp
  have "\<exists>rd. finished s6 s7 rd \<and>
          (if m_jedecID s = 0 then rd = [] \<and> ok
           else \<exists>v. id_read_sequence p v rd \<and> ok = (v = m_jedecID s))"
  proof (cases "m_jedecID s = 0")
    case True
    with chk j6 have "ok" "s7 = s6" by (simp_all add: check_def)
    moreover have "finished s6 s6 []" using f6 by (simp add: finished_def)
    ultimately show ?thesis using True by auto
  next
    case False
    with chk j6 obtain v where rd: "readDeviceId p s6 = Some (v, s7)"
      and ok: "ok = (v = m_jedecID s7)"
      by (auto simp: check_def split: bind_splits)
    from readDeviceId_post[OF rd] obtain rd where f7: "finished s6 s7 rd"
      and ids: "id_read_sequence p v rd" by blast
    from finished_jedecID[OF f7] j6 ok have "ok = (v = m_jedecID s)" by simp
    with f7 ids False show ?thesis by auto
  qed
  then obtain rd where f7: "finished s6 s7 rd"
    and rdp: "if m_jedecID s = 0 then rd = [] \<and> ok
              else \<exists>v. id_read_sequence p v rd \<and> ok = (v = m_jedecID s)" by blast
  have "\<exists>w. finished s7 s' w \<and> b = ok \<and>
          (if b then write_command_sequence [SPIFLASH_STATUSWRITE, 0] w else w = [])"
  proof (cases ok)
    case True
    with unp obtain s8 where c: "command p SPIFLASH_STATUSWRITE True s7 = Some s8"
      and s': "s' = unselect (snd (SPI_transfer p 0 s8))" and b: "b"
      by (auto simp: unprotect_def Let_def split: bind_splits)
    from command_write_post[OF c] obtain pre where pre: "write_prefix pre"
      and s8: "in_span s7 pre [SPIFLASH_STATUSWRITE] s8" by blast
    from write_finish[OF pre transfer_in_span[OF s8]] b True show ?thesis
      unfolding s' by auto
  next
    case False
    with unp have "b = False" "s' = s7" by (simp_all add: unprotect_def)
    moreover have "finished s7 s7 []" using f7 by (simp add: finished_def)
    ultimately show ?thesis using False by auto
  qed
  then obtain w where f8: "finished s7 s' w" and bok: "b = ok"
    and wp: "if b then write_command_sequence [SPIFLASH_STATUSWRITE, 0] w else w = []"
    by blast
  from finished_trans[OF finished_trans[OF finished_trans[OF f5 f6] f7] f8]
  have "finished s s' (CS_High # ps0 @ rd @ w)" by simp
  with ps0 rdp wp bok show ?thesis by blast
qed

subsection \<open>Returning\<close>

lemma command_returns:
  assumes "eventually_ready p"
  shows "\<exists>s'. command p c w s = Some s'"
proof -
  have r: "\<exists>s'. command p c False s = Some s'" for c s
    using while_busy_returns[OF assms] 
    by (subst command.simps) (simp add: Let_def, metis bind.bind_lunit)
  show ?thesis
  proof (cases w)
    case False
    with r show ?thesis by simp
  next
    case True
    let ?s0 = "if atmega32u4 p then (s\<lparr>DDRB := DDRB s OR 1\<rparr>)\<lparr>PORTB := PORTB s OR 1\<rparr> else s"
    from r obtain t where t: "command p SPIFLASH_WRITEENABLE False ?s0 = Some t" by blast
    from while_busy_returns[OF assms] obtain s2 where "while_busy p (unselect t) = Some s2"
      by blast
    with t True show ?thesis
      by (subst command.simps) (simp add: Let_def)
  qed
qed

lemma idle_chip_ready: "eventually_ready idle_chip"
  unfolding eventually_ready_def
proof
  fix tr
  have "\<not> busy_at idle_chip tr 0"
    by (simp add: busy_at_def poll_reply_def idle_chip_def avr_def)
  then show "\<exists>k. \<not> busy_at idle_chip tr k" ..
qed

lemma spansion_chip_ready: "eventually_ready spansion_chip"
  unfolding eventually_ready_def
proof
  fix tr
  have "\<not> busy_at spansion_chip tr 0"
    by (simp add: busy_at_def poll_reply_def spansion_chip_def avr_def opcode_defs)
  then show "\<exists>k. \<not> busy_at spansion_chip tr k" ..
qed

lemma slow_chip_ready: "eventually_ready slow_chip"
  unfolding eventually_ready_def
proof
  fix tr
  have "\<not> busy_at slow_chip tr (Suc 0)"
    by (simp add: busy_at_def poll_reply_def poll_events_def slow_chip_def avr_def)
  then show "\<exists>k. \<not> busy_at slow_chip tr k" ..
qed

subsection \<open>The block erases\<close>

lemma blockErase32K_unrolled:
  "blockErase32K p addr s =
     call_each (blockErase4K p)
       [addr, addr + 4096, addr + 8192, addr + 12288, addr + 16384, addr + 20480,
        addr + 24576, addr + 28672] s"
  by (simp add: blockErase32K_def blockErase32K_loop.simps add.assoc cong: Option.bind_cong)

lemma blockErase512K_unrolled:
  "blockErase512K p addr s =
     call_each (blockErase64K p)
       [addr, addr + 65536, addr + 131072, addr + 196608, addr + 262144, addr + 327680,
        addr + 393216, addr + 458752] s"
  by (simp add: blockErase512K_def blockErase512K_loop.simps add.assoc cong: Option.bind_cong)

lemma real_opcodes_append:
  "cs_ok False xs \<Longrightarrow> real_opcodes (xs @ ys) = real_opcodes xs @ real_opcodes ys"
  by (simp add: real_opcodes_def opcodes_append[of False])

lemma real_opcodes_write:
  assumes "write_command_sequence (c # bs) es"
    and "c \<noteq> SPIFLASH_STATUSREAD" and "c \<noteq> SPIFLASH_WRITEENABLE"
  shows "real_opcodes es = [c]"
proof -
  from write_sequence_opcodes[OF assms(1)] obtain m n where
    "opcodes es = replicate (Suc m) SPIFLASH_STATUSREAD @ SPIFLASH_WRITEENABLE #
           replicate (Suc n) SPIFLASH_STATUSREAD @ [c]" by blast
  with assms(2,3) show ?thesis by (simp add: real_opcodes_def)
qed

lemma call_each_post:
  assumes step: "\<And>a s s'. f a s = Some s' \<Longrightarrow>
             \<exists>es. finished s s' es \<and> tidy C es \<and> real_opcodes es = [c]"
    and "call_each f as s = Some s'" and "as \<noteq> []"
  shows "\<exists>es. finished s s' es \<and> tidy C es \<and> real_opcodes es = replicate (length as) c"
  using assms(2,3)
proof (induction as arbitrary: s)
  case Nil
  then show ?case by simp
next
  case (Cons a as)
  from Cons.prems(1) obtain s1 where a: "f a s = Some s1" and r: "call_each f as s1 = Some s'"
    by (auto split: bind_splits)
  from step[OF a] obtain es where es: "finished s s1 es" "tidy C es" "real_opcodes es = [c]"
    by blast
  show ?case
  proof (cases "as = []")
    case True
    with r have "s' = s1" by simp
    with es True show ?thesis by auto
  next
    case False
    from Cons.IH[OF r False] obtain es' where es': "finished s1 s' es'" "tidy C es'"
      "real_opcodes es' = replicate (length as) c" by blast
    have "real_opcodes (es @ es') = replicate (length (a # as)) c"
      using es(2,3) es'(3) by (simp add: real_opcodes_append tidy_def)
    with finished_trans[OF es(1) es'(1)] tidy_append[OF es(2) es'(2)] show ?thesis by blast
  qed
qed

lemma blockErase4K_step:
  assumes "blockErase4K p a s = Some s'"
  shows "\<exists>es. finished s s' es \<and>
     tidy {SPIFLASH_STATUSREAD, SPIFLASH_WRITEENABLE, SPIFLASH_BLOCKERASE_4K} es \<and>
     real_opcodes es = [SPIFLASH_BLOCKERASE_4K]"
proof -
  from blockErase4K_post[OF assms] obtain es where f: "finished s s' es"
    and w: "write_command_sequence (SPIFLASH_BLOCKERASE_4K # addr_bytes a) es" by blast
  have "real_opcodes es = [SPIFLASH_BLOCKERASE_4K]"
    by (rule real_opcodes_write[OF w]) (simp_all add: opcode_defs)
  with f tidy_write[OF w] show ?thesis by blast
qed

lemma blockErase64K_step:
  assumes "blockErase64K p a s = Some s'"
  shows "\<exists>es. finished s s' es \<and>
     tidy {SPIFLASH_STATUSREAD, SPIFLASH_WRITEENABLE, SPIFLASH_BLOCKERASE_64K} es \<and>
     real_opcodes es = [SPIFLASH_BLOCKERASE_64K]"
proof -
  from blockErase64K_post[OF assms] obtain es where f: "finished s s' es"
    and w: "write_command_sequence (SPIFLASH_BLOCKERASE_64K # addr_bytes a) es" by blast
  have "real_opcodes es = [SPIFLASH_BLOCKERASE_64K]"
    by (rule real_opcodes_write[OF w]) (simp_all add: opcode_defs)
  with f tidy_write[OF w] show ?thesis by blast
qed

lemma blockErase32K_post:
  assumes "blockErase32K p addr s = Some s'"
  shows "\<exists>es. finished s s' es \<and>
     tidy {SPIFLASH_STATUSREAD, SPIFLASH_WRITEENABLE, SPIFLASH_BLOCKERASE_4K} es \<and>
     real_opcodes es = replicate 8 SPIFLASH_BLOCKERASE_4K"
proof -
  have step: "\<And>a s s'. blockErase4K p a s = Some s' \<Longrightarrow>
      \<exists>es. finished s s' es \<and>
        tidy {SPIFLASH_STATUSREAD, SPIFLASH_WRITEENABLE, SPIFLASH_BLOCKERASE_4K} es \<and>
        real_opcodes es = [SPIFLASH_BLOCKERASE_4K]"
    by (rule blockErase4K_step)
  from assms obtain as where c: "call_each (blockErase4K p) as s = Some s'"
    and l: "length as = 8"
    unfolding blockErase32K_unrolled by fastforce
  from l have "as \<noteq> []" by auto
  from call_each_post[where f="blockErase4K p", OF step c this] show ?thesis
    unfolding l .
qed

lemma blockErase512K_post:
  assumes "blockErase512K p addr s = Some s'"
  shows "\<exists>es. finished s s' es \<and>
     tidy {SPIFLASH_STATUSREAD, SPIFLASH_WRITEENABLE, SPIFLASH_BLOCKERASE_64K} es \<and>
     real_opcodes es = replicate 8 SPIFLASH_BLOCKERASE_64K"
proof -
  have step: "\<And>a s s'. blockErase64K p a s = Some s' \<Longrightarrow>
      \<exists>es. finished s s' es \<and>
        tidy {SPIFLASH_STATUSREAD, SPIFLASH_WRITEENABLE, SPIFLASH_BLOCKERASE_64K} es \<and>
        real_opcodes es = [SPIFLASH_BLOCKERASE_64K]"
    by (rule blockErase64K_step)
  from assms obtain as where c: "call_each (blockErase64K p) as s = Some s'"
    and l: "length as = 8"
    unfolding blockErase512K_unrolled by fastforce
  from l have "as \<noteq> []" by auto
  from call_each_post[where f="blockErase64K p", OF step c this] show ?thesis
    unfolding l .
qed

subsection \<open>Every operation that ends with unselect\<close>

lemma tidy_CS_High [simp]: "tidy C (CS_High # es) = tidy C es"
  by (simp add: tidy_def)

lemma tidy_Nil [simp]: "tidy C []"
  by (simp add: tidy_def)

lemma tidy_id_read:
  assumes "id_read_sequence p v rd"
  shows "tidy {SPIFLASH_STATUSREAD, SPIFLASH_IDREAD} rd"
proof -
  from assms obtain pre r b1 b2 b3 where
    rd: "rd = pre @ [CS_Low, Xfer SPIFLASH_IDREAD r, Xfer 0 b1, Xfer 0 b2, Xfer 0 b3, CS_High]"
    and pre: "if atmega32u4 p then busy_poll_loop pre else pre = []"
    unfolding id_read_sequence_def by blast
  have 1: "tidy {SPIFLASH_STATUSREAD, SPIFLASH_IDREAD} pre"
    using pre tidy_mono[OF tidy_poll_loop, of pre "{SPIFLASH_STATUSREAD, SPIFLASH_IDREAD}"]
    by (auto split: if_splits)
  have 2: "tidy {SPIFLASH_STATUSREAD, SPIFLASH_IDREAD}
     [CS_Low, Xfer SPIFLASH_IDREAD r, Xfer 0 b1, Xfer 0 b2, Xfer 0 b3, CS_High]"
    by (simp add: tidy_def)
  show ?thesis unfolding rd by (rule tidy_append[OF 1 2])
qed

lemma initialize_tidy:
  assumes "initialize p s = Some (b, s')"
  shows "\<exists>es. finished s s' es \<and> tidy (op_opcodes Initialize) es"
proof -
  let ?C = "op_opcodes Initialize"
  from initialize_post[OF assms] obtain ps0 rd w where
    f: "finished s s' (CS_High # ps0 @ rd @ w)" and ps0: "busy_poll_loop ps0"
    and rd: "if m_jedecID s = 0 then rd = [] \<and> b
             else \<exists>v. id_read_sequence p v rd \<and> b = (v = m_jedecID s)"
    and w: "if b then write_command_sequence [SPIFLASH_STATUSWRITE, 0] w else w = []"
    by blast
  have 1: "tidy ?C ps0"
    by (rule tidy_mono[OF tidy_poll_loop[OF ps0]]) simp
  have 2: "tidy ?C rd"
  proof (cases "m_jedecID s = 0")
    case True
    with rd show ?thesis by simp
  next
    case False
    with rd obtain v where "id_read_sequence p v rd" by auto
    from tidy_mono[OF tidy_id_read[OF this]] show ?thesis by simp
  qed
  have 3: "tidy ?C w"
  proof (cases b)
    case True
    with w have "write_command_sequence [SPIFLASH_STATUSWRITE, 0] w" by simp
    from tidy_mono[OF tidy_write[OF this]] show ?thesis by simp
  next
    case False
    with w show ?thesis by simp
  qed
  have "tidy ?C (CS_High # ps0 @ rd @ w)"
    using tidy_append[OF 1 tidy_append[OF 2 3]] by simp
  with f show ?thesis by blast
qed

lemma readDeviceId_tidy:
  assumes "readDeviceId p s = Some (v, s')"
  shows "\<exists>es. finished s s' es \<and> tidy (op_opcodes ReadDeviceId) es"
  using readDeviceId_post[OF assms] tidy_id_read by auto

lemma call_summary:
  assumes "call p op s = Some (r, s')" and "closes_span op"
  shows "\<exists>es. finished s s' es \<and> tidy (op_opcodes op) es"
proof (cases op)
  case Initialize
  with assms initialize_tidy show ?thesis by auto
next
  case ReadStatus
  with assms readStatus_post[of s p] show ?thesis
    by (auto simp: split_beta dest: tidy_span)
next
  case PrintStatus
  with assms printStatus_post[of s p] show ?thesis
    by (auto dest: tidy_span)
next
  case PrintRDID
  with assms printRDID_post[of s p] show ?thesis
    by (auto dest: tidy_span)
next
  case (ReadByte addr)
  with assms obtain b where "readByte p addr s = Some (b, s')" by auto
  from readByte_post[OF this] ReadByte show ?thesis by (auto dest: tidy_read)
next
  case (ReadBytes addr buf len)
  with assms obtain b where "readBytes p addr buf len s = Some (b, s')" by auto
  from readBytes_post[OF this] ReadBytes show ?thesis by (auto dest: tidy_read)
next
  case (WriteByte addr byt)
  with assms have "writeByte p addr byt s = Some s'" by auto
  from writeByte_post[OF this] WriteByte show ?thesis by (auto dest: tidy_write)
next
  case (WriteBytes addr buf len)
  with assms have "writeBytes p addr buf len s = Some s'" by auto
  from writeBytes_post[OF this] WriteBytes show ?thesis by (auto dest: tidy_write)
next
  case Busy
  with assms busy_post[of s p] show ?thesis
    by (auto simp: split_beta dest: tidy_span)
next
  case ChipErase
  with assms have "blockErase512K p 0 s = Some s'" by (auto simp: chipErase_def)
  from blockErase512K_post[OF this] ChipErase show ?thesis by auto
next
  case BulkErase
  with assms have "bulkErase p s = Some s'" by auto
  from bulkErase_post[OF this] BulkErase show ?thesis by (auto dest: tidy_write)
next
  case (BlockErase4K addr)
  with assms have "blockErase4K p addr s = Some s'" by auto
  from blockErase4K_post[OF this] BlockErase4K show ?thesis by (auto dest: tidy_write)
next
  case (BlockErase32K addr)
  with assms have "blockErase32K p addr s = Some s'" by auto
  from blockErase32K_post[OF this] BlockErase32K show ?thesis by auto
next
  case (BlockErase64K addr)
  with assms have "blockErase64K p addr s = Some s'" by auto
  from blockErase64K_post[OF this] BlockErase64K show ?thesis by (auto dest: tidy_write)
next
  case (BlockErase512K addr)
  with assms have "blockErase512K p addr s = Some s'" by auto
  from blockErase512K_post[OF this] BlockErase512K show ?thesis by auto
next
  case ReadDeviceId
  with assms readDeviceId_tidy show ?thesis by auto
next
  case ReadUniqueId
  with assms obtain b where "readUniqueId p s = Some (b, s')" by auto
  from readUniqueId_post[OF this] ReadUniqueId show ?thesis by (auto dest: tidy_read)
qed (use assms in simp_all)

subsection \<open>Every operation returns when the chip becomes ready\<close>

lemma command_not_None: "eventually_ready p \<Longrightarrow> command p c w s \<noteq> None"
  using command_returns[of p c w s] by auto

lemma while_busy_not_None: "eventually_ready p \<Longrightarrow> while_busy p s \<noteq> None"
  using while_busy_returns[of p s] by auto

lemma call_each_not_None:
  "(\<And>a s. f a s \<noteq> None) \<Longrightarrow> call_each f as s \<noteq> None"
  by (induction as arbitrary: s) (simp_all add: bind_eq_None_conv del: not_None_eq)

lemma readDeviceId_not_None: "eventually_ready p \<Longrightarrow> readDeviceId p s \<noteq> None"
  by (simp add: readDeviceId_def bind_eq_None_conv command_not_None Let_def split_beta
      del: not_None_eq)

lemma initialize_not_None:
  assumes "eventually_ready p"
  shows "initialize p s \<noteq> None"
proof -
  have "(case x of (ok, s7) \<Rightarrow>
           if ok then command p SPIFLASH_STATUSWRITE True s7 \<bind>
                      (\<lambda>s8. let s9 = snd (SPI_transfer p 0 s8) in Some (True, unselect s9))
           else Some (False, s7)) \<noteq> None" for x
    using command_not_None[OF assms]
    by (cases x) (simp add: bind_eq_None_conv Let_def del: not_None_eq)
  moreover have "(if m_jedecID s6 = 0 then Some (True, s6)
          else readDeviceId p s6 \<bind> (\<lambda>(devid, t). Some (devid = m_jedecID t, t))) \<noteq> None"
    for s6
    using readDeviceId_not_None[OF assms, of s6]
    by (simp add: bind_eq_None_conv split_beta del: not_None_eq)
  ultimately show ?thesis
    unfolding initialize_def Let_def
    by (simp add: bind_eq_None_conv while_busy_not_None[OF assms] del: not_None_eq)
qed

lemma call_not_None:
  assumes "eventually_ready p"
  shows "call p op s \<noteq> None"
proof (cases op)
  case Initialize
  then show ?thesis using initialize_not_None[OF assms] by simp
next
  case ChipErase
  then show ?thesis
    using call_each_not_None[of "blockErase64K p"] command_not_None[OF assms]
    by (simp add: chipErase_def blockErase512K_unrolled blockErase64K_def bind_eq_None_conv Let_def
        del: not_None_eq)
next
  case (BlockErase32K addr)
  then show ?thesis
    using call_each_not_None[of "blockErase4K p"] command_not_None[OF assms]
    by (simp add: blockErase32K_unrolled blockErase4K_def bind_eq_None_conv Let_def
        del: not_None_eq)
next
  case (BlockErase512K addr)
  then show ?thesis
    using call_each_not_None[of "blockErase64K p"] command_not_None[OF assms]
    by (simp add: blockErase512K_unrolled blockErase64K_def bind_eq_None_conv Let_def
        del: not_None_eq)
next
  case ReadDeviceId
  then show ?thesis using readDeviceId_not_None[OF assms] by simp
qed (simp_all add: command_not_None[OF assms] bind_eq_None_conv Let_def split_beta
      readByte_def readBytes_def writeByte_def writeBytes_def bulkErase_def blockErase4K_def
      blockErase64K_def readUniqueId_def del: not_None_eq)

subsection \<open>command as an operation of its own\<close>

lemma write_prefix_cs_ok:
  assumes "write_prefix pre"
  shows "cs_ok False pre"
proof -
  from assms obtain ps1 w ps2 where pre: "pre = ps1 @ w @ ps2"
    and ps1: "busy_poll_loop ps1" and w: "cs_span [SPIFLASH_WRITEENABLE] w"
    and ps2: "busy_poll_loop ps2" unfolding write_prefix_def by blast
  show ?thesis unfolding pre
    by (intro cs_ok_append poll_loop_cs_ok[OF ps1] cs_span_cs_ok[OF w] poll_loop_cs_ok[OF ps2])
qed

lemma command_post:
  assumes "command p cmd isWrite s = Some s'"
  shows "\<exists>pre rep. emitted s s' = pre @ [CS_Low, Xfer cmd rep] \<and> cs_ok False pre \<and>
           (if isWrite then write_prefix pre else busy_poll_loop pre) \<and>
           \<not> ss_high s' \<and> m_SPCR s' = SPCR s \<and> m_SPSR s' = SPSR s"
proof -
  have "\<exists>pre. (if isWrite then write_prefix pre else busy_poll_loop pre) \<and>
          in_span s pre [cmd] s'"
    using assms command_write_post[of p cmd s s'] command_read_post[of p cmd s s']
    by (cases isWrite) auto
  then obtain pre where pre: "if isWrite then write_prefix pre else busy_poll_loop pre"
    and sp: "in_span s pre [cmd] s'" by blast
  from sp obtain rep where tr: "trace s' = trace s @ pre @ [CS_Low, Xfer cmd rep]"
    by (auto simp: in_span_def dest!: sends_single)
  have "cs_ok False pre"
    using pre write_prefix_cs_ok poll_loop_cs_ok by (auto split: if_splits)
  with pre sp tr show ?thesis by (auto simp: emitted_def in_span_def)
qed

subsection \<open>Where the chip-erase opcode appears\<close>

lemma tidy_write_prefix:
  assumes "write_prefix pre"
  shows "tidy {SPIFLASH_STATUSREAD, SPIFLASH_WRITEENABLE} pre"
proof -
  let ?C = "{SPIFLASH_STATUSREAD, SPIFLASH_WRITEENABLE}"
  from assms obtain ps1 w ps2 where pre: "pre = ps1 @ w @ ps2"
    and ps1: "busy_poll_loop ps1" and w: "cs_span [SPIFLASH_WRITEENABLE] w"
    and ps2: "busy_poll_loop ps2" unfolding write_prefix_def by blast
  have 1: "tidy ?C ps1" by (rule tidy_mono[OF tidy_poll_loop[OF ps1]]) simp
  have 2: "tidy ?C w" by (rule tidy_mono[OF tidy_span[OF w]]) simp
  have 3: "tidy ?C ps2" by (rule tidy_mono[OF tidy_poll_loop[OF ps2]]) simp
  show ?thesis unfolding pre by (rule tidy_append[OF 1 tidy_append[OF 2 3]])
qed

lemma command_opcodes:
  assumes "command p cmd isWrite s = Some s'"
  shows "\<exists>ops. opcodes (emitted s s') = ops @ [cmd] \<and>
           set ops \<subseteq> {SPIFLASH_STATUSREAD, SPIFLASH_WRITEENABLE}"
proof -
  from command_post[OF assms] obtain pre rep where
    e: "emitted s s' = pre @ [CS_Low, Xfer cmd rep]" and ok: "cs_ok False pre"
    and pre: "if isWrite then write_prefix pre else busy_poll_loop pre" by blast
  have "tidy {SPIFLASH_STATUSREAD, SPIFLASH_WRITEENABLE} pre"
  proof (cases isWrite)
    case True
    with pre tidy_write_prefix show ?thesis by simp
  next
    case False
    with pre have "busy_poll_loop pre" by simp
    from tidy_mono[OF tidy_poll_loop[OF this]] show ?thesis by simp
  qed
  then have "set (opcodes pre) \<subseteq> {SPIFLASH_STATUSREAD, SPIFLASH_WRITEENABLE}"
    by (simp add: tidy_def)
  moreover have "opcodes (emitted s s') = opcodes pre @ [cmd]"
    unfolding e by (simp add: opcodes_append[OF ok])
  ultimately show ?thesis by blast
qed

lemma chip_erase_opcode_only_bulkErase:
  assumes "call p op s = Some (r, s')"
  shows "SPIFLASH_CHIPERASE \<in> set (opcodes (emitted s s')) \<longleftrightarrow>
           op = BulkErase \<or> (\<exists>isWrite. op = Command SPIFLASH_CHIPERASE isWrite)"
proof (cases "closes_span op")
  case True
  from call_summary[OF assms True] obtain es where f: "finished s s' es"
    and t: "tidy (op_opcodes op) es" by blast
  note e = emitted_finished[OF f]
  show ?thesis
  proof (cases "op = BulkErase")
    case True
    with assms have "bulkErase p s = Some s'" by auto
    from bulkErase_post[OF this] obtain es' where f': "finished s s' es'"
      and w: "write_command_sequence [SPIFLASH_CHIPERASE] es'" by blast
    from write_sequence_opcodes[OF w] have "SPIFLASH_CHIPERASE \<in> set (opcodes es')" by auto
    with True show ?thesis by (simp add: emitted_finished[OF f'])
  next
    case False
    from t have sub: "set (opcodes es) \<subseteq> op_opcodes op" by (simp add: tidy_def)
    have "SPIFLASH_CHIPERASE \<notin> op_opcodes op"
      using False \<open>closes_span op\<close> by (cases op) (simp_all add: opcode_defs)
    with sub have "SPIFLASH_CHIPERASE \<notin> set (opcodes es)" by blast
    with False \<open>closes_span op\<close> show ?thesis unfolding e by auto
  qed
next
  case False
  then consider (c) cmd isWrite where "op = Command cmd isWrite"
    | (n) "op = Sleep \<or> op = Wakeup \<or> op = End"
    by (cases op) auto
  then show ?thesis
  proof cases
    case c
    with assms have "command p cmd isWrite s = Some s'" by auto
    from command_opcodes[OF this] obtain ops where
      o: "opcodes (emitted s s') = ops @ [cmd]"
      and s: "set ops \<subseteq> {SPIFLASH_STATUSREAD, SPIFLASH_WRITEENABLE}" by blast
    from s have "SPIFLASH_CHIPERASE \<notin> set ops" by (auto simp: opcode_defs)
    with o c show ?thesis by auto
  next
    case n
    with assms have "emitted s s' = []"
      by (auto simp: sleep_def wakeup_def end_flash_def spi_call_def emitted_def Let_def)
    with n show ?thesis by auto
  qed
qed

subsection \<open>One write-enable per write command\<close>

lemma count_list_replicate: "count_list (replicate n x) y = (if x = y then n else 0)"
  by (induction n) auto

lemma write_opcodes_count:
  assumes "write_opcodes c ops" and "c \<noteq> SPIFLASH_WRITEENABLE"
  shows "count_list ops SPIFLASH_WRITEENABLE = 1"
proof -
  from assms(1) obtain m n where
    "ops = replicate (Suc m) SPIFLASH_STATUSREAD @ SPIFLASH_WRITEENABLE #
           replicate (Suc n) SPIFLASH_STATUSREAD @ [c]"
    unfolding write_opcodes_def by blast
  moreover have "SPIFLASH_STATUSREAD \<noteq> SPIFLASH_WRITEENABLE" by (simp add: opcode_defs)
  ultimately show ?thesis using assms(2) by (simp add: count_list_replicate)
qed

lemma write_on_busI:
  assumes "finished s s' es" and "write_command_sequence (c # bs) es"
    and "c \<noteq> SPIFLASH_WRITEENABLE"
  shows "write_on_bus (c # bs) (emitted s s')"
proof -
  have o: "write_opcodes c (opcodes es)"
    unfolding write_opcodes_def by (rule write_sequence_opcodes[OF assms(2)])
  from write_opcodes_count[OF o assms(3)] o assms(2) show ?thesis
    by (simp add: write_on_bus_def emitted_finished[OF assms(1)])
qed

lemma initialize_write_path:
  assumes "initialize p s = Some (True, s')"
  shows "\<exists>pre w. emitted s s' = pre @ w \<and> tidy {SPIFLASH_STATUSREAD, SPIFLASH_IDREAD} pre \<and>
           write_on_bus [SPIFLASH_STATUSWRITE, 0] w"
    and "count_list (opcodes (emitted s s')) SPIFLASH_WRITEENABLE = 1"
proof -
  let ?C = "{SPIFLASH_STATUSREAD, SPIFLASH_IDREAD}"
  from initialize_post[OF assms] obtain ps0 rd w where
    f: "finished s s' (CS_High # ps0 @ rd @ w)" and ps0: "busy_poll_loop ps0"
    and rd: "rd = [] \<or> (\<exists>v. id_read_sequence p v rd)"
    and w: "write_command_sequence [SPIFLASH_STATUSWRITE, 0] w"
    by (fastforce split: if_splits)
  have 1: "tidy ?C ps0" by (rule tidy_mono[OF tidy_poll_loop[OF ps0]]) simp
  have 2: "tidy ?C rd"
    using rd tidy_id_read by auto
  have pre: "tidy ?C (CS_High # ps0 @ rd)" using tidy_append[OF 1 2] by simp
  have o: "write_opcodes SPIFLASH_STATUSWRITE (opcodes w)"
    unfolding write_opcodes_def by (rule write_sequence_opcodes[OF w])
  have ne: "SPIFLASH_STATUSWRITE \<noteq> SPIFLASH_WRITEENABLE" by (simp add: opcode_defs)
  have wb: "write_on_bus [SPIFLASH_STATUSWRITE, 0] w"
    using w o write_opcodes_count[OF o ne] by (simp add: write_on_bus_def)
  have e: "emitted s s' = (CS_High # ps0 @ rd) @ w"
    using emitted_finished[OF f] by simp
  from e pre wb
  show "\<exists>pre w. emitted s s' = pre @ w \<and> tidy ?C pre \<and> write_on_bus [SPIFLASH_STATUSWRITE, 0] w"
    by blast
  from pre have ok: "cs_ok False (CS_High # ps0 @ rd)"
    and sub: "set (opcodes (CS_High # ps0 @ rd)) \<subseteq> ?C" by (simp_all add: tidy_def)
  have "SPIFLASH_WRITEENABLE \<notin> ?C" by (simp add: opcode_defs)
  with sub have "SPIFLASH_WRITEENABLE \<notin> set (opcodes (CS_High # ps0 @ rd))" by blast
  then have "count_list (opcodes (CS_High # ps0 @ rd)) SPIFLASH_WRITEENABLE = 0"
    by (rule count_notin)
  then show "count_list (opcodes (emitted s s')) SPIFLASH_WRITEENABLE = 1"
    unfolding e opcodes_append[OF ok] using write_opcodes_count[OF o ne] by simp
qed

subsection \<open>The identifier in the log\<close>

lemma jedec_read_CS_High [simp]: "jedec_read (CS_High # es) = jedec_read es"
  by (cases es) auto

lemma jedec_read_Xfer [simp]: "jedec_read (Xfer c r # es) = jedec_read es"
  by (cases es) auto

lemma jedec_read_poll:
  "busy_poll_loop ps \<Longrightarrow> jedec_read (ps @ es) = jedec_read es"
proof (induction ps rule: busy_poll_loop.induct)
  case (1 c r1 d r2 ps)
  then show ?case by (auto simp: opcode_defs split: if_splits)
qed simp_all

lemma jedec_read_none:
  "cs_ok a es \<Longrightarrow> SPIFLASH_IDREAD \<notin> set (opcodes es) \<Longrightarrow> jedec_read es = None"
proof (induction a es rule: cs_ok.induct)
  case (2 a es)
  then have ok: "cs_ok True es" by simp
  show ?case
  proof (cases es)
    case Nil
    with ok show ?thesis by simp
  next
    case (Cons e es')
    with 2 ok show ?thesis by (cases e) auto
  qed
qed auto

lemma jedec_read_id:
  assumes "id_read_sequence p v rd"
  shows "jedec_read (rd @ es) = Some v"
proof -
  from assms obtain pre r b1 b2 b3 where
    rd: "rd = pre @ [CS_Low, Xfer SPIFLASH_IDREAD r, Xfer 0 b1, Xfer 0 b2, Xfer 0 b3, CS_High]"
    and pre: "if atmega32u4 p then busy_poll_loop pre else pre = []"
    and v: "v = push_bit 16 (ucast b1) OR push_bit 8 (ucast b2) OR ucast b3"
    unfolding id_read_sequence_def by blast
  have "jedec_read (rd @ es) =
      jedec_read ([CS_Low, Xfer SPIFLASH_IDREAD r, Xfer 0 b1, Xfer 0 b2, Xfer 0 b3, CS_High] @ es)"
    using pre unfolding rd by (auto simp: jedec_read_poll split: if_splits)
  then show ?thesis by (simp add: v)
qed

lemma initialize_true_iff:
  assumes "initialize p s = Some (b, s')"
  shows "b = (m_jedecID s = 0 \<or> jedec_read (emitted s s') = Some (m_jedecID s))"
proof -
  from initialize_post[OF assms] obtain ps0 rd w where
    f: "finished s s' (CS_High # ps0 @ rd @ w)" and ps0: "busy_poll_loop ps0"
    and rd: "if m_jedecID s = 0 then rd = [] \<and> b
             else \<exists>v. id_read_sequence p v rd \<and> b = (v = m_jedecID s)"
    by blast
  show ?thesis
  proof (cases "m_jedecID s = 0")
    case True
    with rd show ?thesis by simp
  next
    case False
    with rd obtain v where v: "id_read_sequence p v rd" and b: "b = (v = m_jedecID s)"
      by auto
    have "jedec_read (emitted s s') = Some v"
      unfolding emitted_finished[OF f]
      by (simp add: jedec_read_poll[OF ps0] jedec_read_id[OF v])
    with b False show ?thesis by auto
  qed
qed

lemma initialize_unchecked:
  assumes "initialize p s = Some (b, s')" and "m_jedecID s = 0"
  shows "b" and "SPIFLASH_IDREAD \<notin> set (opcodes (emitted s s'))"
    and "jedec_read (emitted s s') = None"
proof -
  let ?C = "{SPIFLASH_STATUSREAD, SPIFLASH_WRITEENABLE, SPIFLASH_STATUSWRITE}"
  from initialize_post[OF assms(1)] assms(2) obtain ps0 w where
    f: "finished s s' (CS_High # ps0 @ w)" and ps0: "busy_poll_loop ps0" and b: "b"
    and w: "write_command_sequence [SPIFLASH_STATUSWRITE, 0] w"
    by auto
  show "b" by (rule b)
  have 1: "tidy ?C ps0" by (rule tidy_mono[OF tidy_poll_loop[OF ps0]]) simp
  have 2: "tidy ?C w" by (rule tidy_mono[OF tidy_write[OF w]]) simp
  have t: "tidy ?C (CS_High # ps0 @ w)" using tidy_append[OF 1 2] by simp
  have "SPIFLASH_IDREAD \<notin> ?C" by (simp add: opcode_defs)
  with t show n: "SPIFLASH_IDREAD \<notin> set (opcodes (emitted s s'))"
    unfolding emitted_finished[OF f] tidy_def by blast
  from t have "cs_ok False (emitted s s')"
    unfolding emitted_finished[OF f] tidy_def by simp
  from jedec_read_none[OF this n] show "jedec_read (emitted s s') = None" .
qed

subsection \<open>Cells of a page program\<close>

lemma length_page_program [simp]: "length (page_program a2 a1 a0 ds) = length ds"
  by (induction ds arbitrary: a0) auto

lemma page_program_nth:
  "i < length ds \<Longrightarrow>
   page_program a2 a1 a0 ds ! i = ((a2, a1, a0 + of_nat i), ds ! i)"
proof (induction ds arbitrary: a0 i)
  case Nil
  then show ?case by simp
next
  case (Cons d ds)
  show ?case
  proof (cases i)
    case 0
    then show ?thesis by simp
  next
    case (Suc j)
    with Cons.prems have "j < length ds" by simp
    from Cons.IH[OF this, of "a0 + 1"] Suc show ?thesis by (simp add: add.assoc add.commute)
  qed
qed

subsection \<open>The spans of a log\<close>

lemma sent_append: "cs_ok True es \<Longrightarrow> sent (es @ ys) = sent es"
  by (induction es rule: sent.induct) auto

lemma spans_Xfer [simp]: "spans (Xfer c r # es) = spans es"
  by simp

lemma spans_append: "cs_ok a xs \<Longrightarrow> spans (xs @ ys) = spans xs @ spans ys"
  by (induction a xs rule: cs_ok.induct) (auto simp: sent_append)

lemma transfers_sent: "transfers bs es \<Longrightarrow> sent es = bs"
  by (induction bs es rule: transfers.induct) auto

lemma transfers_spans: "transfers bs es \<Longrightarrow> spans es = []"
  by (induction bs es rule: transfers.induct) auto

lemma cs_span_spans:
  assumes "cs_span bs es"
  shows "spans es = [bs]"
proof -
  from cs_span_Cons[OF assms] obtain es' where es: "es = CS_Low # es'"
    and t: "transfers bs es'" by blast
  show ?thesis unfolding es using transfers_sent[OF t] transfers_spans[OF t] by simp
qed

lemma poll_loop_spans:
  "busy_poll_loop ps \<Longrightarrow> \<exists>n. spans ps = replicate (Suc n) [SPIFLASH_STATUSREAD, 0]"
proof (induction ps rule: busy_poll_loop.induct)
  case (1 c r1 d r2 es)
  show ?case
  proof (cases "r2 AND 1 \<noteq> 0")
    case True
    with 1 obtain n where "spans es = replicate (Suc n) [SPIFLASH_STATUSREAD, 0]" by auto
    with 1(2) have "spans (CS_Low # Xfer c r1 # Xfer d r2 # CS_High # es) =
        replicate (Suc (Suc n)) [SPIFLASH_STATUSREAD, 0]" by simp
    then show ?thesis by blast
  next
    case False
    with 1(2) have "spans (CS_Low # Xfer c r1 # Xfer d r2 # CS_High # es) =
        replicate (Suc 0) [SPIFLASH_STATUSREAD, 0]" by simp
    then show ?thesis by blast
  qed
qed simp_all

lemma one_command_status [simp]: "one_command [SPIFLASH_STATUSREAD, 0]"
  by (simp add: opcode_defs zeros_def)

lemma one_command_enable [simp]: "one_command [SPIFLASH_WRITEENABLE]"
  by (simp add: opcode_defs)

lemma neat_append: "neat xs \<Longrightarrow> neat ys \<Longrightarrow> neat (xs @ ys)"
  unfolding neat_def by (simp add: spans_append[of False] cs_ok_append)

lemma neat_Nil [simp]: "neat []"
  by (simp add: neat_def)

lemma neat_CS_High [simp]: "neat (CS_High # es) = neat es"
  by (simp add: neat_def)

lemma neat_poll_loop:
  assumes "busy_poll_loop ps"
  shows "neat ps"
proof -
  from poll_loop_spans[OF assms] obtain n where
    "spans ps = replicate (Suc n) [SPIFLASH_STATUSREAD, 0]" by blast
  then have "list_all one_command (spans ps)"
    by (simp add: list_all_iff del: one_command.simps replicate.simps)
  with poll_loop_cs_ok[OF assms] show ?thesis by (simp add: neat_def)
qed

lemma neat_span: "cs_span bs f \<Longrightarrow> one_command bs \<Longrightarrow> neat f"
  unfolding neat_def by (simp add: cs_span_cs_ok cs_span_spans)

lemma neat_read:
  assumes "read_command_sequence bs es" and "one_command bs"
  shows "neat es"
proof -
  from assms(1) obtain ps f where es: "es = ps @ f" and ps: "busy_poll_loop ps"
    and f: "cs_span bs f" unfolding read_command_sequence_def by blast
  show ?thesis unfolding es
    by (intro neat_append neat_poll_loop[OF ps] neat_span[OF f assms(2)])
qed

lemma neat_write_prefix:
  assumes "write_prefix pre"
  shows "neat pre"
proof -
  from assms obtain ps1 w ps2 where pre: "pre = ps1 @ w @ ps2"
    and ps1: "busy_poll_loop ps1" and w: "cs_span [SPIFLASH_WRITEENABLE] w"
    and ps2: "busy_poll_loop ps2" unfolding write_prefix_def by blast
  show ?thesis unfolding pre
    by (intro neat_append neat_poll_loop[OF ps1] neat_poll_loop[OF ps2]
        neat_span[OF w one_command_enable])
qed

lemma neat_write:
  assumes "write_command_sequence bs es" and "one_command bs"
  shows "neat es"
proof -
  from assms(1) obtain ps1 w ps2 f where es: "es = ps1 @ w @ ps2 @ f"
    and ps1: "busy_poll_loop ps1" and w: "cs_span [SPIFLASH_WRITEENABLE] w"
    and ps2: "busy_poll_loop ps2" and f: "cs_span bs f"
    unfolding write_command_sequence_def by blast
  show ?thesis unfolding es
    by (intro neat_append neat_poll_loop[OF ps1] neat_poll_loop[OF ps2]
        neat_span[OF w one_command_enable] neat_span[OF f assms(2)])
qed

lemma length_addr_bytes [simp]: "length (addr_bytes addr) = 3"
  by (simp add: addr_bytes_def)

lemma zeros_simps [simp]: "zeros []" "zeros (0 # bs) = zeros bs" "zeros (replicate n 0)"
  by (simp_all add: zeros_def)

lemma one_command_ops:
  "one_command (SPIFLASH_ARRAYREADLOWFREQ # addr_bytes addr @ [0])"
  "one_command (SPIFLASH_ARRAYREAD # addr_bytes addr @ 0 # replicate n 0)"
  "one_command (SPIFLASH_BYTEPAGEPROGRAM # addr_bytes addr @ ds)"
  "one_command (SPIFLASH_BLOCKERASE_4K # addr_bytes addr)"
  "one_command (SPIFLASH_BLOCKERASE_64K # addr_bytes addr)"
  "one_command [SPIFLASH_CHIPERASE]"
  "one_command [SPIFLASH_STATUSWRITE, 0]"
  "one_command (SPIFLASH_MACREAD # replicate n 0)"
  "one_command (SPIFLASH_IDREAD # replicate n 0)"
  by (simp_all add: opcode_defs addr_bytes_def)

subsection \<open>One command sequence per span, operation by operation\<close>

lemma neat_id_read:
  assumes "id_read_sequence p v rd"
  shows "neat rd"
proof -
  from assms obtain pre r b1 b2 b3 where
    rd: "rd = pre @ [CS_Low, Xfer SPIFLASH_IDREAD r, Xfer 0 b1, Xfer 0 b2, Xfer 0 b3, CS_High]"
    and pre: "if atmega32u4 p then busy_poll_loop pre else pre = []"
    unfolding id_read_sequence_def by blast
  have 1: "neat pre"
    using pre neat_poll_loop[of pre] by (auto split: if_splits)
  have "one_command (SPIFLASH_IDREAD # replicate 3 0)" by (rule one_command_ops)
  then have 2: "neat [CS_Low, Xfer SPIFLASH_IDREAD r, Xfer 0 b1, Xfer 0 b2, Xfer 0 b3, CS_High]"
    by (simp add: neat_def numeral_3_eq_3)
  show ?thesis unfolding rd by (rule neat_append[OF 1 2])
qed

lemma initialize_neat:
  assumes "initialize p s = Some (b, s')"
  shows "\<exists>es. finished s s' (CS_High # es) \<and> neat es"
proof -
  from initialize_post[OF assms] obtain ps0 rd w where
    f: "finished s s' (CS_High # ps0 @ rd @ w)" and ps0: "busy_poll_loop ps0"
    and rd: "if m_jedecID s = 0 then rd = [] \<and> b
             else \<exists>v. id_read_sequence p v rd \<and> b = (v = m_jedecID s)"
    and w: "if b then write_command_sequence [SPIFLASH_STATUSWRITE, 0] w else w = []"
    by blast
  have 1: "neat ps0" by (rule neat_poll_loop[OF ps0])
  have 2: "neat rd"
  proof (cases "m_jedecID s = 0")
    case True
    with rd show ?thesis by simp
  next
    case False
    with rd obtain v where "id_read_sequence p v rd" by auto
    then show ?thesis by (rule neat_id_read)
  qed
  have 3: "neat w"
  proof (cases b)
    case True
    with w have "write_command_sequence [SPIFLASH_STATUSWRITE, 0] w" by simp
    then show ?thesis by (rule neat_write) (rule one_command_ops)
  next
    case False
    with w show ?thesis by simp
  qed
  from neat_append[OF 1 neat_append[OF 2 3]] f show ?thesis by blast
qed

lemma call_each_neat:
  assumes step: "\<And>a s s'. f a s = Some s' \<Longrightarrow> \<exists>es. finished s s' es \<and> neat es"
    and "call_each f as s = Some s'" and "as \<noteq> []"
  shows "\<exists>es. finished s s' es \<and> neat es"
  using assms(2,3)
proof (induction as arbitrary: s)
  case Nil
  then show ?case by simp
next
  case (Cons a as)
  from Cons.prems(1) obtain s1 where a: "f a s = Some s1" and r: "call_each f as s1 = Some s'"
    by (auto split: bind_splits)
  from step[OF a] obtain es where es: "finished s s1 es" "neat es" by blast
  show ?case
  proof (cases "as = []")
    case True
    with r have "s' = s1" by simp
    with es show ?thesis by auto
  next
    case False
    from Cons.IH[OF r False] obtain es' where es': "finished s1 s' es'" "neat es'" by blast
    from finished_trans[OF es(1) es'(1)] neat_append[OF es(2) es'(2)] show ?thesis by blast
  qed
qed

lemma blockErase4K_neat:
  assumes "blockErase4K p a s = Some s'"
  shows "\<exists>es. finished s s' es \<and> neat es"
proof -
  from blockErase4K_post[OF assms] obtain es where f: "finished s s' es"
    and w: "write_command_sequence (SPIFLASH_BLOCKERASE_4K # addr_bytes a) es" by blast
  from f neat_write[OF w one_command_ops(4)] show ?thesis by blast
qed

lemma blockErase64K_neat:
  assumes "blockErase64K p a s = Some s'"
  shows "\<exists>es. finished s s' es \<and> neat es"
proof -
  from blockErase64K_post[OF assms] obtain es where f: "finished s s' es"
    and w: "write_command_sequence (SPIFLASH_BLOCKERASE_64K # addr_bytes a) es" by blast
  from f neat_write[OF w one_command_ops(5)] show ?thesis by blast
qed

lemma blockErase32K_neat:
  assumes "blockErase32K p addr s = Some s'"
  shows "\<exists>es. finished s s' es \<and> neat es"
proof -
  have step: "\<And>a s s'. blockErase4K p a s = Some s' \<Longrightarrow> \<exists>es. finished s s' es \<and> neat es"
    by (rule blockErase4K_neat)
  from assms obtain as where c: "call_each (blockErase4K p) as s = Some s'"
    and l: "length as = 8"
    unfolding blockErase32K_unrolled by fastforce
  from l have "as \<noteq> []" by auto
  from call_each_neat[where f="blockErase4K p", OF step c this] show ?thesis .
qed

lemma blockErase512K_neat:
  assumes "blockErase512K p addr s = Some s'"
  shows "\<exists>es. finished s s' es \<and> neat es"
proof -
  have step: "\<And>a s s'. blockErase64K p a s = Some s' \<Longrightarrow> \<exists>es. finished s s' es \<and> neat es"
    by (rule blockErase64K_neat)
  from assms obtain as where c: "call_each (blockErase64K p) as s = Some s'"
    and l: "length as = 8"
    unfolding blockErase512K_unrolled by fastforce
  from l have "as \<noteq> []" by auto
  from call_each_neat[where f="blockErase64K p", OF step c this] show ?thesis .
qed

lemma call_neat:
  assumes "call p op s = Some (r, s')" and "closes_span op" and "op \<noteq> PrintStatus"
  shows "\<exists>es. finished s s' es \<and> neat es"
proof (cases op)
  case Initialize
  with assms obtain b where "initialize p s = Some (b, s')" by auto
  from initialize_neat[OF this] obtain es where "finished s s' (CS_High # es)" "neat es"
    by blast
  then have "finished s s' (CS_High # es) \<and> neat (CS_High # es)" by simp
  then show ?thesis by blast
next
  case ReadStatus
  with assms readStatus_post[of s p] show ?thesis
    by (auto simp: split_beta dest: neat_span[OF _ one_command_status])
next
  case PrintRDID
  with assms printRDID_post[of s p] show ?thesis
    by (auto dest: neat_span[OF _ one_command_ops(9)])
next
  case (ReadByte addr)
  with assms obtain b where "readByte p addr s = Some (b, s')" by auto
  from readByte_post[OF this] show ?thesis
    by (auto dest: neat_read[OF _ one_command_ops(1)])
next
  case (ReadBytes addr buf len)
  with assms obtain b where "readBytes p addr buf len s = Some (b, s')" by auto
  from readBytes_post[OF this] show ?thesis
    by (auto dest: neat_read[OF _ one_command_ops(2)])
next
  case (WriteByte addr byt)
  with assms have "writeByte p addr byt s = Some s'" by auto
  from writeByte_post[OF this] show ?thesis
    by (auto dest: neat_write[OF _ one_command_ops(3)])
next
  case (WriteBytes addr buf len)
  with assms have "writeBytes p addr buf len s = Some s'" by auto
  from writeBytes_post[OF this] show ?thesis
    by (auto dest: neat_write[OF _ one_command_ops(3)])
next
  case Busy
  with assms busy_post[of s p] show ?thesis
    by (auto simp: split_beta dest: neat_span[OF _ one_command_status])
next
  case ChipErase
  with assms have "blockErase512K p 0 s = Some s'" by (auto simp: chipErase_def)
  from blockErase512K_neat[OF this] show ?thesis .
next
  case BulkErase
  with assms have "bulkErase p s = Some s'" by auto
  from bulkErase_post[OF this] show ?thesis
    by (auto dest: neat_write[OF _ one_command_ops(6)])
next
  case (BlockErase4K addr)
  with assms have "blockErase4K p addr s = Some s'" by auto
  from blockErase4K_neat[OF this] show ?thesis .
next
  case (BlockErase32K addr)
  with assms have "blockErase32K p addr s = Some s'" by auto
  from blockErase32K_neat[OF this] show ?thesis .
next
  case (BlockErase64K addr)
  with assms have "blockErase64K p addr s = Some s'" by auto
  from blockErase64K_neat[OF this] show ?thesis .
next
  case (BlockErase512K addr)
  with assms have "blockErase512K p addr s = Some s'" by auto
  from blockErase512K_neat[OF this] show ?thesis .
next
  case ReadDeviceId
  with assms obtain v where "readDeviceId p s = Some (v, s')" by auto
  from readDeviceId_post[OF this] neat_id_read show ?thesis by blast
next
  case ReadUniqueId
  with assms obtain b where "readUniqueId p s = Some (b, s')" by auto
  from readUniqueId_post[OF this] show ?thesis
    by (auto dest: neat_read[OF _ one_command_ops(8)])
qed (use assms in simp_all)

lemma initialize_cs_ok:
  assumes "initialize p s = Some (b, s')"
  shows "cs_ok a (emitted s s')"
proof -
  from initialize_neat[OF assms] obtain es where f: "finished s s' (CS_High # es)"
    and n: "neat es" by blast
  from n show ?thesis unfolding emitted_finished[OF f] by (simp add: neat_def)
qed

subsection \<open>The registers command leaves\<close>

lemma select_registers:
  "(SPCR (select p s), SPSR (select p s)) =
     SPI_begin p (setClockDivider_DIV4 p (setBitOrder_MSBFIRST p (setDataMode_MODE0 p
       (SPCR s, SPSR s))))"
  by (simp add: select_def spi_call_def digitalWrite_def Let_def)

lemma command_registers:
  assumes "command p cmd isWrite s = Some s'"
  shows "(SPCR s', SPSR s') =
     SPI_begin p (setClockDivider_DIV4 p (setBitOrder_MSBFIRST p (setDataMode_MODE0 p
       (SPCR s, SPSR s))))"
proof -
  have "\<exists>s2. SPCR s2 = SPCR s \<and> SPSR s2 = SPSR s \<and> s' = snd (SPI_transfer p cmd (select p s2))"
  proof (cases isWrite)
    case False
    with assms obtain s2 where wb: "while_busy p (ss_radio p s) = Some s2"
      and s': "s' = snd (SPI_transfer p cmd (select p s2))"
      by (auto simp: command.simps[of p cmd False s] ss_radio_def Let_def
          split: bind_splits if_splits)
    from while_busy_post[OF wb] obtain ps where "finished s s2 ps" by auto
    with s' show ?thesis by (auto simp: finished_def)
  next
    case True
    with assms obtain t s2 where
      we: "command p SPIFLASH_WRITEENABLE False (ss_radio p s) = Some t"
      and wb: "while_busy p (unselect t) = Some s2"
      and s': "s' = snd (SPI_transfer p cmd (select p s2))"
      by (auto simp: command.simps[of p cmd True s] ss_radio_def Let_def
          split: bind_splits if_splits)
    from command_read_post[OF we] obtain ps1 where
      t: "in_span s ps1 [SPIFLASH_WRITEENABLE] t" by auto
    from while_busy_post[OF wb] obtain ps2 where s2: "finished (unselect t) s2 ps2" by blast
    from t s2 have "SPCR s2 = SPCR s" "SPSR s2 = SPSR s"
      by (simp_all add: in_span_def finished_def)
    with s' show ?thesis by blast
  qed
  then obtain s2 where "SPCR s2 = SPCR s" "SPSR s2 = SPSR s"
    "s' = snd (SPI_transfer p cmd (select p s2))" by blast
  then show ?thesis using select_registers[of p s2] by simp
qed

subsection \<open>What the chip programs from a write sequence\<close>

lemma write_sequence_spans:
  assumes "write_command_sequence bs es"
  shows "\<exists>m n. spans es =
           replicate (Suc m) [SPIFLASH_STATUSREAD, 0] @ [SPIFLASH_WRITEENABLE] #
           replicate (Suc n) [SPIFLASH_STATUSREAD, 0] @ [bs]"
proof -
  from assms obtain ps1 w ps2 f where es: "es = ps1 @ w @ ps2 @ f"
    and ps1: "busy_poll_loop ps1" and w: "cs_span [SPIFLASH_WRITEENABLE] w"
    and ps2: "busy_poll_loop ps2" and f: "cs_span bs f"
    unfolding write_command_sequence_def by blast
  from poll_loop_spans[OF ps1] obtain m where
    m: "spans ps1 = replicate (Suc m) [SPIFLASH_STATUSREAD, 0]" by blast
  from poll_loop_spans[OF ps2] obtain n where
    n: "spans ps2 = replicate (Suc n) [SPIFLASH_STATUSREAD, 0]" by blast
  have "spans es = spans ps1 @ spans w @ spans ps2 @ spans f"
    unfolding es
    by (simp only: spans_append[OF poll_loop_cs_ok[OF ps1]] spans_append[OF cs_span_cs_ok[OF w]]
        spans_append[OF poll_loop_cs_ok[OF ps2]])
  then have "spans es =
      replicate (Suc m) [SPIFLASH_STATUSREAD, 0] @ [SPIFLASH_WRITEENABLE] #
      replicate (Suc n) [SPIFLASH_STATUSREAD, 0] @ [bs]"
    by (simp only: m n cs_span_spans[OF w] cs_span_spans[OF f] append.simps)
  then show ?thesis by blast
qed

lemma programmed_polls [simp]:
  "concat (map programmed (replicate k [SPIFLASH_STATUSREAD, 0])) = []"
  by (induction k) simp_all

lemma chip_programs_write:
  assumes "write_command_sequence bs es"
  shows "chip_programs es = programmed bs"
proof -
  from write_sequence_spans[OF assms] obtain m n where
    "spans es =
       replicate (Suc m) [SPIFLASH_STATUSREAD, 0] @ [SPIFLASH_WRITEENABLE] #
       replicate (Suc n) [SPIFLASH_STATUSREAD, 0] @ [bs]" by blast
  then show ?thesis
    unfolding chip_programs_def by (simp del: replicate.simps)
qed

section \<open>The claims\<close>

text \<open>
  C1, as amended. For every write or erase operation (\<open>writeByte\<close>, \<open>writeBytes\<close>,
  \<open>blockErase4K\<close>, \<open>blockErase64K\<close>, \<open>bulkErase\<close> and the write path of \<open>initialize\<close>),
  what the operation puts on the bus holds exactly one write-enable opcode (\<open>0x06\<close>),
  before the real opcode, and two busy loops (status reads repeated until the busy bit is
  clear) run before the real opcode: one before the write-enable and one between the
  write-enable and the real opcode. So the write-enable is the last opcode other than a
  status read before the real opcode, and at least one status read separates the two. In
  \<open>initialize\<close> the write sequence comes after its first busy loop and, when an identifier
  is expected, the identifier read; these hold status reads and the JEDEC-ID opcode only.
  Each of the six operations returns whenever the chip becomes ready.
\<close>

theorem write_commands_on_the_bus:
  "(writeByte p addr byt s = Some s1 \<longrightarrow>
      write_on_bus (SPIFLASH_BYTEPAGEPROGRAM # addr_bytes addr @ [byt]) (emitted s s1)) \<and>
   (writeBytes p addr buf len s = Some s2 \<longrightarrow>
      write_on_bus (SPIFLASH_BYTEPAGEPROGRAM # addr_bytes addr @ map buf [0..<unat len])
        (emitted s s2)) \<and>
   (blockErase4K p addr s = Some s3 \<longrightarrow>
      write_on_bus (SPIFLASH_BLOCKERASE_4K # addr_bytes addr) (emitted s s3)) \<and>
   (blockErase64K p addr s = Some s4 \<longrightarrow>
      write_on_bus (SPIFLASH_BLOCKERASE_64K # addr_bytes addr) (emitted s s4)) \<and>
   (bulkErase p s = Some s5 \<longrightarrow> write_on_bus [SPIFLASH_CHIPERASE] (emitted s s5)) \<and>
   (initialize p s = Some (True, s6) \<longrightarrow>
      (\<exists>pre w. emitted s s6 = pre @ w \<and>
         tidy {SPIFLASH_STATUSREAD, SPIFLASH_IDREAD} pre \<and>
         write_on_bus [SPIFLASH_STATUSWRITE, 0] w) \<and>
      count_list (opcodes (emitted s s6)) SPIFLASH_WRITEENABLE = 1) \<and>
   (eventually_ready p \<longrightarrow>
      writeByte p addr byt s \<noteq> None \<and> writeBytes p addr buf len s \<noteq> None \<and>
      blockErase4K p addr s \<noteq> None \<and> blockErase64K p addr s \<noteq> None \<and>
      bulkErase p s \<noteq> None \<and> initialize p s \<noteq> None)"
proof (intro conjI impI)
  assume "writeByte p addr byt s = Some s1"
  from writeByte_post[OF this] obtain es where "finished s s1 es"
    "write_command_sequence (SPIFLASH_BYTEPAGEPROGRAM # addr_bytes addr @ [byt]) es" by blast
  then show "write_on_bus (SPIFLASH_BYTEPAGEPROGRAM # addr_bytes addr @ [byt]) (emitted s s1)"
    by (rule write_on_busI) (simp add: opcode_defs)
next
  assume "writeBytes p addr buf len s = Some s2"
  from writeBytes_post[OF this] obtain es where "finished s s2 es"
    "write_command_sequence
       (SPIFLASH_BYTEPAGEPROGRAM # addr_bytes addr @ map buf [0..<unat len]) es" by blast
  then show "write_on_bus (SPIFLASH_BYTEPAGEPROGRAM # addr_bytes addr @ map buf [0..<unat len])
        (emitted s s2)"
    by (rule write_on_busI) (simp add: opcode_defs)
next
  assume "blockErase4K p addr s = Some s3"
  from blockErase4K_post[OF this] obtain es where "finished s s3 es"
    "write_command_sequence (SPIFLASH_BLOCKERASE_4K # addr_bytes addr) es" by blast
  then show "write_on_bus (SPIFLASH_BLOCKERASE_4K # addr_bytes addr) (emitted s s3)"
    by (rule write_on_busI) (simp add: opcode_defs)
next
  assume "blockErase64K p addr s = Some s4"
  from blockErase64K_post[OF this] obtain es where "finished s s4 es"
    "write_command_sequence (SPIFLASH_BLOCKERASE_64K # addr_bytes addr) es" by blast
  then show "write_on_bus (SPIFLASH_BLOCKERASE_64K # addr_bytes addr) (emitted s s4)"
    by (rule write_on_busI) (simp add: opcode_defs)
next
  assume "bulkErase p s = Some s5"
  from bulkErase_post[OF this] obtain es where "finished s s5 es"
    "write_command_sequence [SPIFLASH_CHIPERASE] es" by blast
  then show "write_on_bus [SPIFLASH_CHIPERASE] (emitted s s5)"
    by (rule write_on_busI) (simp add: opcode_defs)
next
  assume i: "initialize p s = Some (True, s6)"
  from initialize_write_path[OF i]
  show "\<exists>pre w. emitted s s6 = pre @ w \<and>
         tidy {SPIFLASH_STATUSREAD, SPIFLASH_IDREAD} pre \<and>
         write_on_bus [SPIFLASH_STATUSWRITE, 0] w"
    and "count_list (opcodes (emitted s s6)) SPIFLASH_WRITEENABLE = 1" by blast+
next
  assume r: "eventually_ready p"
  from call_not_None[OF r, of "WriteByte addr byt" s]
  show "writeByte p addr byt s \<noteq> None" by simp
  from call_not_None[OF r, of "WriteBytes addr buf len" s]
  show "writeBytes p addr buf len s \<noteq> None" by simp
  from call_not_None[OF r, of "BlockErase4K addr" s]
  show "blockErase4K p addr s \<noteq> None" by simp
  from call_not_None[OF r, of "BlockErase64K addr" s]
  show "blockErase64K p addr s \<noteq> None" by simp
  from call_not_None[OF r, of BulkErase s]
  show "bulkErase p s \<noteq> None" by simp
  from initialize_not_None[OF r]
  show "initialize p s \<noteq> None" .
qed

text \<open>
  As stated the claim fails: on a chip that is never busy, \<open>bulkErase\<close> sends the opcodes
  \<open>05 06 05 60\<close>. A status read of the second busy loop stands between the write-enable
  and the chip-erase opcode, and two busy loops have run, not one.
\<close>

theorem status_read_between_enable_and_opcode:
  "map_option (opcodes \<circ> emitted power_on) (bulkErase idle_chip power_on) =
     Some [0x05, 0x06, 0x05, 0x60] \<and>
   \<not> stated_write_opcodes SPIFLASH_CHIPERASE [0x05, 0x06, 0x05, 0x60] \<and>
   map_option (emitted power_on) (bulkErase idle_chip power_on) =
     Some [CS_Low, Xfer 0x05 0, Xfer 0 0, CS_High, CS_Low, Xfer 0x06 0, CS_High,
           CS_Low, Xfer 0x05 0, Xfer 0 0, CS_High, CS_Low, Xfer 0x60 0, CS_High]"
  by code_simp

text \<open>
  The theorem at a chip that is busy at the first poll, for the six operations from the
  state after power-on (no identifier expected, so \<open>initialize\<close> takes its write path).
\<close>

theorem write_commands_on_the_bus_witness:
  "(case writeByte slow_chip 0x01234567 0xAB power_on of
      None \<Rightarrow> False
    | Some s' \<Rightarrow> write_on_bus [0x02, 0x23, 0x45, 0x67, 0xAB] (emitted power_on s')) \<and>
   (case writeBytes slow_chip 0x01234567 of_nat 3 power_on of
      None \<Rightarrow> False
    | Some s' \<Rightarrow> write_on_bus [0x02, 0x23, 0x45, 0x67, 0, 1, 2] (emitted power_on s')) \<and>
   (case blockErase4K slow_chip 0x01234567 power_on of
      None \<Rightarrow> False
    | Some s' \<Rightarrow> write_on_bus [0x20, 0x23, 0x45, 0x67] (emitted power_on s')) \<and>
   (case blockErase64K slow_chip 0x01234567 power_on of
      None \<Rightarrow> False
    | Some s' \<Rightarrow> write_on_bus [0xD8, 0x23, 0x45, 0x67] (emitted power_on s')) \<and>
   (case bulkErase slow_chip power_on of
      None \<Rightarrow> False
    | Some s' \<Rightarrow> write_on_bus [0x60] (emitted power_on s')) \<and>
   (case initialize slow_chip power_on of
      None \<Rightarrow> False
    | Some (b, s') \<Rightarrow>
        b \<and> count_list (opcodes (emitted power_on s')) SPIFLASH_WRITEENABLE = 1)"
proof -
  have ab: "addr_bytes 0x01234567 = [0x23, 0x45, 0x67]"
    by (simp add: addr_bytes_stated stated_address_bytes_def)
  have r: "writeByte slow_chip 0x01234567 0xAB power_on \<noteq> None \<and>
      writeBytes slow_chip 0x01234567 of_nat 3 power_on \<noteq> None \<and>
      blockErase4K slow_chip 0x01234567 power_on \<noteq> None \<and>
      blockErase64K slow_chip 0x01234567 power_on \<noteq> None \<and>
      bulkErase slow_chip power_on \<noteq> None \<and> initialize slow_chip power_on \<noteq> None"
    using write_commands_on_the_bus[where p=slow_chip and addr="0x01234567" and byt="0xAB"
        and buf=of_nat and len=3 and s=power_on] slow_chip_ready by blast
  from r obtain s1 where 1: "writeByte slow_chip 0x01234567 0xAB power_on = Some s1"
    by auto
  from r obtain s2 where 2: "writeBytes slow_chip 0x01234567 of_nat 3 power_on = Some s2"
    by auto
  from r obtain s3 where 3: "blockErase4K slow_chip 0x01234567 power_on = Some s3"
    by auto
  from r obtain s4 where 4: "blockErase64K slow_chip 0x01234567 power_on = Some s4"
    by auto
  from r obtain s5 where 5: "bulkErase slow_chip power_on = Some s5"
    by auto
  from r obtain b s6 where 6: "initialize slow_chip power_on = Some (b, s6)"
    by auto
  have b: "b"
    using initialize_post[OF 6] by (auto simp: power_on_def)
  note t = write_commands_on_the_bus[of slow_chip "0x01234567" _ power_on]
  have a1: "write_on_bus [0x02, 0x23, 0x45, 0x67, 0xAB] (emitted power_on s1)"
    using t[of "0xAB" s1] 1 by (simp add: ab opcode_defs)
  have a2: "write_on_bus [0x02, 0x23, 0x45, 0x67, 0, 1, 2] (emitted power_on s2)"
    using t[of _ _ of_nat 3 s2] 2 by (simp add: ab opcode_defs upt_rec)
  have a3: "write_on_bus [0x20, 0x23, 0x45, 0x67] (emitted power_on s3)"
    using t[of _ _ _ _ _ s3] 3 by (simp add: ab opcode_defs)
  have a4: "write_on_bus [0xD8, 0x23, 0x45, 0x67] (emitted power_on s4)"
    using t[of _ _ _ _ _ _ s4] 4 by (simp add: ab opcode_defs)
  have a5: "write_on_bus [0x60] (emitted power_on s5)"
    using t[of _ _ _ _ _ _ _ s5] 5 by (simp add: opcode_defs)
  have a6: "count_list (opcodes (emitted power_on s6)) SPIFLASH_WRITEENABLE = 1"
    using t[of _ _ _ _ _ _ _ _ s6] 6 b by simp
  show ?thesis unfolding 1 2 3 4 5 6 using a1 a2 a3 a4 a5 a6 b by simp
qed

text \<open>
  C2. For every 32-bit address passed to \<open>readByte\<close>, \<open>readBytes\<close>, \<open>writeByte\<close>,
  \<open>writeBytes\<close>, \<open>blockErase4K\<close> or \<open>blockErase64K\<close>, the span of the command holds, right
  after the opcode, exactly the three bytes \<open>(addr >> 16) mod 256\<close>, \<open>(addr >> 8) mod 256\<close>,
  \<open>addr mod 256\<close>, followed by the bytes of the operation itself (the dummy and clocking
  zeros of the reads, the data of the writes, nothing for the erases); no other span of the
  operation carries an address. Read most significant byte first, the three bytes are the
  address truncated to its low 24 bits. Each of the six operations returns, and so has
  transmitted these bytes, whenever the chip becomes ready.
\<close>

theorem address_bytes_on_the_bus:
  "(readByte p addr s = Some (b, s1) \<longrightarrow>
      read_command_sequence (SPIFLASH_ARRAYREADLOWFREQ # stated_address_bytes addr @ [0])
        (emitted s s1)) \<and>
   (readBytes p addr buf len s = Some (buf', s2) \<longrightarrow>
      read_command_sequence
        (SPIFLASH_ARRAYREAD # stated_address_bytes addr @ 0 # replicate (unat len) 0)
        (emitted s s2)) \<and>
   (writeByte p addr byt s = Some s3 \<longrightarrow>
      write_command_sequence (SPIFLASH_BYTEPAGEPROGRAM # stated_address_bytes addr @ [byt])
        (emitted s s3)) \<and>
   (writeBytes p addr buf len s = Some s4 \<longrightarrow>
      write_command_sequence
        (SPIFLASH_BYTEPAGEPROGRAM # stated_address_bytes addr @ map buf [0..<unat len])
        (emitted s s4)) \<and>
   (blockErase4K p addr s = Some s5 \<longrightarrow>
      write_command_sequence (SPIFLASH_BLOCKERASE_4K # stated_address_bytes addr)
        (emitted s s5)) \<and>
   (blockErase64K p addr s = Some s6 \<longrightarrow>
      write_command_sequence (SPIFLASH_BLOCKERASE_64K # stated_address_bytes addr)
        (emitted s s6)) \<and>
   (\<exists>b2 b1 b0. stated_address_bytes addr = [b2, b1, b0] \<and>
      unat b2 * 65536 + unat b1 * 256 + unat b0 = unat addr mod 2 ^ 24) \<and>
   (eventually_ready p \<longrightarrow>
      readByte p addr s \<noteq> None \<and> readBytes p addr buf len s \<noteq> None \<and>
      writeByte p addr byt s \<noteq> None \<and> writeBytes p addr buf len s \<noteq> None \<and>
      blockErase4K p addr s \<noteq> None \<and> blockErase64K p addr s \<noteq> None)"
proof (intro conjI impI)
  assume "readByte p addr s = Some (b, s1)"
  from readByte_post[OF this]
  show "read_command_sequence (SPIFLASH_ARRAYREADLOWFREQ # stated_address_bytes addr @ [0])
        (emitted s s1)"
    by (auto simp: emitted_finished addr_bytes_stated)
next
  assume "readBytes p addr buf len s = Some (buf', s2)"
  from readBytes_post[OF this]
  show "read_command_sequence
        (SPIFLASH_ARRAYREAD # stated_address_bytes addr @ 0 # replicate (unat len) 0)
        (emitted s s2)"
    by (auto simp: emitted_finished addr_bytes_stated)
next
  assume "writeByte p addr byt s = Some s3"
  from writeByte_post[OF this]
  show "write_command_sequence (SPIFLASH_BYTEPAGEPROGRAM # stated_address_bytes addr @ [byt])
        (emitted s s3)"
    by (auto simp: emitted_finished addr_bytes_stated)
next
  assume "writeBytes p addr buf len s = Some s4"
  from writeBytes_post[OF this]
  show "write_command_sequence
        (SPIFLASH_BYTEPAGEPROGRAM # stated_address_bytes addr @ map buf [0..<unat len])
        (emitted s s4)"
    by (auto simp: emitted_finished addr_bytes_stated)
next
  assume "blockErase4K p addr s = Some s5"
  from blockErase4K_post[OF this]
  show "write_command_sequence (SPIFLASH_BLOCKERASE_4K # stated_address_bytes addr)
        (emitted s s5)"
    by (auto simp: emitted_finished addr_bytes_stated)
next
  assume "blockErase64K p addr s = Some s6"
  from blockErase64K_post[OF this]
  show "write_command_sequence (SPIFLASH_BLOCKERASE_64K # stated_address_bytes addr)
        (emitted s s6)"
    by (auto simp: emitted_finished addr_bytes_stated)
next
  show "\<exists>b2 b1 b0. stated_address_bytes addr = [b2, b1, b0] \<and>
      unat b2 * 65536 + unat b1 * 256 + unat b0 = unat addr mod 2 ^ 24"
    using stated_bytes_value[of addr] by (simp add: stated_address_bytes_def)
next
  assume r: "eventually_ready p"
  from call_not_None[OF r, of "ReadByte addr" s]
  show "readByte p addr s \<noteq> None" by simp
  from call_not_None[OF r, of "ReadBytes addr buf len" s]
  show "readBytes p addr buf len s \<noteq> None" by simp
  from call_not_None[OF r, of "WriteByte addr byt" s]
  show "writeByte p addr byt s \<noteq> None" by simp
  from call_not_None[OF r, of "WriteBytes addr buf len" s]
  show "writeBytes p addr buf len s \<noteq> None" by simp
  from call_not_None[OF r, of "BlockErase4K addr" s]
  show "blockErase4K p addr s \<noteq> None" by simp
  from call_not_None[OF r, of "BlockErase64K addr" s]
  show "blockErase64K p addr s \<noteq> None" by simp
qed

text \<open>
  The theorem at the address \<open>0xFF234567\<close>, whose top byte is dropped, on a chip that is
  busy at the first poll.
\<close>

theorem address_bytes_on_the_bus_witness:
  "(case readByte slow_chip 0xFF234567 power_on of
      None \<Rightarrow> False
    | Some (b, s') \<Rightarrow> read_command_sequence [0x03, 0x23, 0x45, 0x67, 0] (emitted power_on s')) \<and>
   (case readBytes slow_chip 0xFF234567 (\<lambda>i. 0) 2 power_on of
      None \<Rightarrow> False
    | Some (b, s') \<Rightarrow>
        read_command_sequence [0x0B, 0x23, 0x45, 0x67, 0, 0, 0] (emitted power_on s')) \<and>
   (case writeByte slow_chip 0xFF234567 0xAB power_on of
      None \<Rightarrow> False
    | Some s' \<Rightarrow>
        write_command_sequence [0x02, 0x23, 0x45, 0x67, 0xAB] (emitted power_on s')) \<and>
   (case writeBytes slow_chip 0xFF234567 of_nat 3 power_on of
      None \<Rightarrow> False
    | Some s' \<Rightarrow>
        write_command_sequence [0x02, 0x23, 0x45, 0x67, 0, 1, 2] (emitted power_on s')) \<and>
   (case blockErase4K slow_chip 0xFF234567 power_on of
      None \<Rightarrow> False
    | Some s' \<Rightarrow> write_command_sequence [0x20, 0x23, 0x45, 0x67] (emitted power_on s')) \<and>
   (case blockErase64K slow_chip 0xFF234567 power_on of
      None \<Rightarrow> False
    | Some s' \<Rightarrow> write_command_sequence [0xD8, 0x23, 0x45, 0x67] (emitted power_on s')) \<and>
   stated_address_bytes 0xFF234567 = [0x23, 0x45, 0x67] \<and>
   unat (0xFF234567 :: long) mod 2 ^ 24 = 0x234567"
proof -
  have ab: "stated_address_bytes 0xFF234567 = [0x23, 0x45, 0x67]"
    by (simp add: stated_address_bytes_def)
  note t = address_bytes_on_the_bus[where p=slow_chip and addr="0xFF234567" and s=power_on]
  have ra: "readByte slow_chip 0xFF234567 power_on \<noteq> None \<and>
      readBytes slow_chip 0xFF234567 (\<lambda>i. 0) 2 power_on \<noteq> None"
    using t[where buf="\<lambda>i. 0" and len=2] slow_chip_ready by blast
  have rb: "writeByte slow_chip 0xFF234567 0xAB power_on \<noteq> None \<and>
      writeBytes slow_chip 0xFF234567 of_nat 3 power_on \<noteq> None \<and>
      blockErase4K slow_chip 0xFF234567 power_on \<noteq> None \<and>
      blockErase64K slow_chip 0xFF234567 power_on \<noteq> None"
    using t[where buf=of_nat and len=3 and byt="0xAB"] slow_chip_ready by blast
  from ra obtain b1 s1 where 1: "readByte slow_chip 0xFF234567 power_on = Some (b1, s1)"
    by auto
  from ra obtain b2 s2 where
    2: "readBytes slow_chip 0xFF234567 (\<lambda>i. 0) 2 power_on = Some (b2, s2)"
    by auto
  from rb obtain s3 where 3: "writeByte slow_chip 0xFF234567 0xAB power_on = Some s3"
    by auto
  from rb obtain s4 where 4: "writeBytes slow_chip 0xFF234567 of_nat 3 power_on = Some s4"
    by auto
  from rb obtain s5 where 5: "blockErase4K slow_chip 0xFF234567 power_on = Some s5"
    by auto
  from rb obtain s6 where 6: "blockErase64K slow_chip 0xFF234567 power_on = Some s6"
    by auto
  have "unat (2 :: word16) = Suc (Suc 0)" by simp
  then have rep: "replicate (unat (2 :: word16)) (0 :: byte) = [0, 0]"
    by (simp only: replicate.simps)
  have a1: "read_command_sequence [0x03, 0x23, 0x45, 0x67, 0] (emitted power_on s1)"
    using t[where b=b1 and ?s1.0=s1] 1 by (simp add: ab opcode_defs)
  have a2: "read_command_sequence [0x0B, 0x23, 0x45, 0x67, 0, 0, 0] (emitted power_on s2)"
    using t[where buf="\<lambda>i. 0" and len=2 and buf'=b2 and ?s2.0=s2] 2
    by (simp only: ab rep opcode_defs append.simps)
  have a3: "write_command_sequence [0x02, 0x23, 0x45, 0x67, 0xAB] (emitted power_on s3)"
    using t[where byt="0xAB" and ?s3.0=s3] 3 by (simp add: ab opcode_defs)
  have a4: "write_command_sequence [0x02, 0x23, 0x45, 0x67, 0, 1, 2] (emitted power_on s4)"
    using t[where buf=of_nat and len=3 and ?s4.0=s4] 4 by (simp add: ab opcode_defs upt_rec)
  have a5: "write_command_sequence [0x20, 0x23, 0x45, 0x67] (emitted power_on s5)"
    using t[where ?s5.0=s5] 5 by (simp add: ab opcode_defs)
  have a6: "write_command_sequence [0xD8, 0x23, 0x45, 0x67] (emitted power_on s6)"
    using t[where ?s6.0=s6] 6 by (simp add: ab opcode_defs)
  have v: "unat (0xFF234567 :: long) mod 2 ^ 24 = 0x234567" by simp
  show ?thesis unfolding 1 2 3 4 5 6 using a1 a2 a3 a4 a5 a6 ab v by simp
qed

text \<open>
  C3, as amended. For every public operation that ends with \<open>unselect\<close> (all but
  \<open>command\<close>, \<open>sleep\<close>, \<open>wakeup\<close> and \<open>end\<close>): when it returns, the chip-select pin is
  high and \<open>SPCR\<close> and \<open>SPSR\<close> hold the values they held when it was called. When it is
  called with the chip deselected (\<open>initialize\<close>: in any state of the pin), the events it
  put on the bus keep the chip-select discipline, read from the state of the pin at the
  call: a falling edge only while deselected, transfers only while selected, deselected
  at the end; and every span it opened carries exactly one command sequence, one opcode
  with its operands (\<open>printStatus\<close> is excepted from this last part). \<open>sleep\<close> and
  \<open>wakeup\<close> leave the state as it is, \<open>end\<close> leaves pin and log as they are. \<open>command\<close>
  returns with the chip selected and its opcode sent, the registers holding the settings
  of the flash chip and the members the values to restore; called with the chip
  deselected, the spans before its own keep the discipline and carry one command sequence
  each. Every run of the busy loop is a sequence of status polls, each in a span of its
  own, and ends with the pin high. Every operation, and the busy loop, returns whenever
  the chip becomes ready.
\<close>

theorem chip_select_and_registers:
  "(eventually_ready p \<longrightarrow> call p op s \<noteq> None \<and> while_busy p s \<noteq> None) \<and>
   (call p op s = Some (r, s') \<longrightarrow>
      (closes_span op \<longrightarrow>
         ss_high s' \<and> SPCR s' = SPCR s \<and> SPSR s' = SPSR s \<and>
         (ss_high s \<or> op = Initialize \<longrightarrow>
            cs_ok (\<not> ss_high s) (emitted s s') \<and>
            (op \<noteq> PrintStatus \<longrightarrow> list_all one_command (spans (emitted s s'))))) \<and>
      (op = Sleep \<or> op = Wakeup \<longrightarrow> s' = s) \<and>
      (op = End \<longrightarrow> ss_high s' = ss_high s \<and> emitted s s' = []) \<and>
      (\<forall>cmd isWrite. op = Command cmd isWrite \<longrightarrow>
         \<not> ss_high s' \<and> m_SPCR s' = SPCR s \<and> m_SPSR s' = SPSR s \<and>
         (SPCR s', SPSR s') =
           SPI_begin p (setClockDivider_DIV4 p (setBitOrder_MSBFIRST p
             (setDataMode_MODE0 p (SPCR s, SPSR s)))) \<and>
         (\<exists>pre rep. emitted s s' = pre @ [CS_Low, Xfer cmd rep] \<and>
            (ss_high s \<longrightarrow>
               cs_ok (\<not> ss_high s) pre \<and> list_all one_command (spans pre))))) \<and>
   (\<forall>t. while_busy p s = Some t \<longrightarrow>
      busy_poll_loop (emitted s t) \<and> ss_high t \<and>
      (ss_high s \<longrightarrow>
         cs_ok (\<not> ss_high s) (emitted s t) \<and> list_all one_command (spans (emitted s t))))"
proof -
  have ret: "call p op s \<noteq> None \<and> while_busy p s \<noteq> None" if "eventually_ready p"
    using call_not_None[OF that] while_busy_not_None[OF that] by blast
  have clo: "ss_high s' \<and> SPCR s' = SPCR s \<and> SPSR s' = SPSR s \<and>
      (ss_high s \<or> op = Initialize \<longrightarrow>
         cs_ok (\<not> ss_high s) (emitted s s') \<and>
         (op \<noteq> PrintStatus \<longrightarrow> list_all one_command (spans (emitted s s'))))"
    if c: "call p op s = Some (r, s')" and cl: "closes_span op"
  proof -
    from call_summary[OF c cl] obtain es where f: "finished s s' es"
      and t: "tidy (op_opcodes op) es" by blast
    note e = emitted_finished[OF f]
    from f have 1: "ss_high s' \<and> SPCR s' = SPCR s \<and> SPSR s' = SPSR s"
      by (simp add: finished_def)
    have 2: "cs_ok (\<not> ss_high s) (emitted s s')" if "ss_high s \<or> op = Initialize"
      using that
    proof
      assume "ss_high s"
      with t show ?thesis by (simp add: e tidy_def)
    next
      assume "op = Initialize"
      with c obtain b where "initialize p s = Some (b, s')" by auto
      then show ?thesis by (rule initialize_cs_ok)
    qed
    have 3: "list_all one_command (spans (emitted s s'))" if "op \<noteq> PrintStatus"
    proof -
      from call_neat[OF c cl that] obtain es' where f': "finished s s' es'"
        and n: "neat es'" by blast
      from n show ?thesis by (simp add: emitted_finished[OF f'] neat_def)
    qed
    from 1 2 3 show ?thesis by blast
  qed
  have idl: "s' = s" if "call p op s = Some (r, s')" and "op = Sleep \<or> op = Wakeup"
    using that by (auto simp: sleep_def wakeup_def)
  have fin: "ss_high s' = ss_high s \<and> emitted s s' = []"
    if "call p op s = Some (r, s')" and "op = End"
    using that by (auto simp: end_flash_def spi_call_def emitted_def Let_def)
  have opn: "\<not> ss_high s' \<and> m_SPCR s' = SPCR s \<and> m_SPSR s' = SPSR s \<and>
      (SPCR s', SPSR s') =
        SPI_begin p (setClockDivider_DIV4 p (setBitOrder_MSBFIRST p
          (setDataMode_MODE0 p (SPCR s, SPSR s)))) \<and>
      (\<exists>pre rep. emitted s s' = pre @ [CS_Low, Xfer cmd rep] \<and>
         (ss_high s \<longrightarrow> cs_ok (\<not> ss_high s) pre \<and> list_all one_command (spans pre)))"
    if "call p op s = Some (r, s')" and "op = Command cmd isWrite" for cmd isWrite
  proof -
    from that have c: "command p cmd isWrite s = Some s'" by auto
    from command_post[OF c] obtain pre rep where
      e: "emitted s s' = pre @ [CS_Low, Xfer cmd rep]" and ok: "cs_ok False pre"
      and pre: "if isWrite then write_prefix pre else busy_poll_loop pre"
      and rest: "\<not> ss_high s'" "m_SPCR s' = SPCR s" "m_SPSR s' = SPSR s" by blast
    have "neat pre"
      using pre neat_write_prefix neat_poll_loop by (auto split: if_splits)
    then have "list_all one_command (spans pre)" by (simp add: neat_def)
    with e ok have "\<exists>pre rep. emitted s s' = pre @ [CS_Low, Xfer cmd rep] \<and>
         (ss_high s \<longrightarrow> cs_ok (\<not> ss_high s) pre \<and> list_all one_command (spans pre))"
      by auto
    with rest command_registers[OF c] show ?thesis by blast
  qed
  have pol: "busy_poll_loop (emitted s t) \<and> ss_high t \<and>
      (ss_high s \<longrightarrow>
         cs_ok (\<not> ss_high s) (emitted s t) \<and> list_all one_command (spans (emitted s t)))"
    if "while_busy p s = Some t" for t
  proof -
    from while_busy_post[OF that] obtain ps where ps: "busy_poll_loop ps"
      and f: "finished s t ps" by blast
    note e = emitted_finished[OF f]
    from f have "ss_high t" by (simp add: finished_def)
    moreover from neat_poll_loop[OF ps] have "list_all one_command (spans ps)"
      by (simp add: neat_def)
    ultimately show ?thesis using ps poll_loop_cs_ok[OF ps] by (simp add: e)
  qed
  from ret clo idl fin opn pol show ?thesis by blast
qed

text \<open>
  As stated the claim fails on \<open>command\<close>, a public member function: on a chip that is never
  busy, \<open>command(SPIFLASH_IDREAD)\<close> returns with the pin low and with \<open>SPCR\<close> changed
  from \<open>0x0C\<close> to the settings of the flash chip. An operation called in the state
  \<open>command\<close> leaves, here \<open>readStatus\<close>, drives the pin low while it is low already, so
  the discipline is stated for calls with the chip deselected. The claim fails on
  \<open>printStatus\<close> too, whose single span carries two command sequences: the opcode \<open>0x05\<close>
  with its clocking byte, then the opcode \<open>0x07\<close> with its clocking byte, the chip
  selected throughout.
\<close>

theorem command_leaves_chip_selected:
  "map_option ss_high (command idle_chip SPIFLASH_IDREAD False power_on) = Some False \<and>
   map_option SPCR (command idle_chip SPIFLASH_IDREAD False power_on) = Some 0x50 \<and>
   SPCR power_on = 0x0C \<and>
   map_option trace (command idle_chip SPIFLASH_IDREAD False power_on) =
     Some [CS_Low, Xfer 0x05 0, Xfer 0 0, CS_High, CS_Low, Xfer 0x9F 0] \<and>
   map_option (\<lambda>t. cs_ok (\<not> ss_high t) (emitted t (snd (readStatus idle_chip t))))
     (command idle_chip SPIFLASH_IDREAD False power_on) = Some False \<and>
   emitted power_on (printStatus idle_chip power_on) =
     [CS_Low, Xfer 0x05 0, Xfer 0 0, Xfer 0x07 0, Xfer 0 0, CS_High] \<and>
   spans (emitted power_on (printStatus idle_chip power_on)) = [[0x05, 0, 0x07, 0]] \<and>
   one_command [0x05, 0] \<and> \<not> one_command [0x05, 0, 0x07, 0]"
  by code_simp

text \<open>
  The theorem at a chip that is busy at the first poll: \<open>writeByte\<close>, \<open>command\<close>,
  \<open>sleep\<close> and the busy loop, from the state after power-on, where the pin is high. With
  the register effects of the AVR library \<open>command\<close> leaves \<open>SPCR = 0x50\<close> and \<open>SPSR = 0\<close>.
\<close>

theorem chip_select_and_registers_witness:
  "(case call slow_chip (WriteByte 0x01234567 0xAB) power_on of
      None \<Rightarrow> False
    | Some (r, s') \<Rightarrow>
        ss_high s' \<and> SPCR s' = SPCR power_on \<and> SPSR s' = SPSR power_on \<and>
        cs_ok False (emitted power_on s') \<and>
        list_all one_command (spans (emitted power_on s'))) \<and>
   (case call slow_chip (Command SPIFLASH_IDREAD False) power_on of
      None \<Rightarrow> False
    | Some (r, s') \<Rightarrow>
        \<not> ss_high s' \<and> m_SPCR s' = SPCR power_on \<and> SPCR s' = 0x50 \<and> SPSR s' = 0) \<and>
   (case call slow_chip Sleep power_on of
      None \<Rightarrow> False
    | Some (r, s') \<Rightarrow> s' = power_on) \<and>
   (case while_busy slow_chip power_on of
      None \<Rightarrow> False
    | Some t \<Rightarrow> busy_poll_loop (emitted power_on t) \<and> ss_high t)"
proof -
  note t = chip_select_and_registers[where p=slow_chip and s=power_on]
  have n: "call slow_chip op power_on \<noteq> None \<and> while_busy slow_chip power_on \<noteq> None" for op
    using t[where op=op] slow_chip_ready by blast
  obtain r1 s1 where 1: "call slow_chip (WriteByte 0x01234567 0xAB) power_on = Some (r1, s1)"
    using n by fastforce
  obtain r2 s2 where 2: "call slow_chip (Command SPIFLASH_IDREAD False) power_on = Some (r2, s2)"
    using n by fastforce
  obtain r3 s3 where 3: "call slow_chip Sleep power_on = Some (r3, s3)"
    using n by fastforce
  obtain u where 4: "while_busy slow_chip power_on = Some u"
    using n by fastforce
  have h: "ss_high power_on" by (simp add: power_on_def)
  have a: "ss_high s1 \<and> SPCR s1 = SPCR power_on \<and> SPSR s1 = SPSR power_on \<and>
        cs_ok False (emitted power_on s1) \<and> list_all one_command (spans (emitted power_on s1))"
    using t[where op="WriteByte 0x01234567 0xAB" and r=r1 and s'=s1] 1 h by simp
  have b: "\<not> ss_high s2 \<and> m_SPCR s2 = SPCR power_on \<and>
      (SPCR s2, SPSR s2) =
      SPI_begin slow_chip (setClockDivider_DIV4 slow_chip (setBitOrder_MSBFIRST slow_chip
        (setDataMode_MODE0 slow_chip (SPCR power_on, SPSR power_on))))"
    using t[where op="Command SPIFLASH_IDREAD False" and r=r2 and s'=s2] 2 by blast
  then have g: "SPCR s2 = 0x50 \<and> SPSR s2 = 0"
    by (simp add: slow_chip_def avr_def power_on_def)
  have c: "s3 = power_on"
    using t[where op=Sleep and r=r3 and s'=s3] 3 by blast
  have d: "busy_poll_loop (emitted power_on u) \<and> ss_high u"
    using t[where op=Sleep] 4 by blast
  show ?thesis
    unfolding 1 2 3 4 using a b c d g by simp
qed

text \<open>
  C4, as amended. \<open>initialize\<close> returns a boolean that is true exactly when no identifier
  is expected (the expected identifier is 0) or the identifier read from the chip equals
  the expected one, and false otherwise; it returns whenever the chip becomes ready. No
  other operation returns a success flag: the only other boolean is that of \<open>busy\<close>,
  which is the busy bit of the status byte the chip answered; the rest return nothing or
  the data read.
\<close>

theorem initialize_result:
  "(initialize p s = Some (b, s') \<longrightarrow>
      b = (m_jedecID s = 0 \<or> jedec_read (emitted s s') = Some (m_jedecID s))) \<and>
   (eventually_ready p \<longrightarrow> initialize p s \<noteq> None) \<and>
   (call p op s = Some (r, s'') \<longrightarrow>
      (op \<noteq> Initialize \<and> op \<noteq> Busy \<longrightarrow> (\<forall>x. r \<noteq> Boolean x)) \<and>
      (op = Busy \<longrightarrow> r = Boolean (poll_reply p (trace s) AND 1 \<noteq> 0)))"
proof (intro conjI impI)
  assume "initialize p s = Some (b, s')"
  then show "b = (m_jedecID s = 0 \<or> jedec_read (emitted s s') = Some (m_jedecID s))"
    by (rule initialize_true_iff)
next
  assume "eventually_ready p"
  then show "initialize p s \<noteq> None" by (rule initialize_not_None)
next
  assume c: "call p op s = Some (r, s'')" and "op \<noteq> Initialize \<and> op \<noteq> Busy"
  then show "\<forall>x. r \<noteq> Boolean x"
    by (cases op) (auto simp: split_beta)
next
  assume c: "call p op s = Some (r, s'')" and "op = Busy"
  then show "r = Boolean (poll_reply p (trace s) AND 1 \<noteq> 0)"
    using busy_fst[of p s] by (auto simp: split_beta)
qed

text \<open>
  As stated the claim fails when no identifier is expected: on a chip whose identifier is
  \<open>0x12018\<close>, \<open>initialize\<close> of a driver constructed with identifier 0 returns true although
  no identifier is read and that of the chip differs from 0.
\<close>

theorem initialize_true_without_identifier:
  "map_option fst (initialize spansion_chip (SPIFlashA 8 0 power_on)) = Some True \<and>
   map_option (jedec_read \<circ> emitted (SPIFlashA 8 0 power_on) \<circ> snd)
     (initialize spansion_chip (SPIFlashA 8 0 power_on)) = Some None \<and>
   m_jedecID (SPIFlashA 8 0 power_on) = 0 \<and>
   map_option fst (readDeviceId spansion_chip (SPIFlashA 8 0 power_on)) = Some 0x12018"
  by code_simp

text \<open>
  The theorem on that chip: the expected identifier \<open>0x12018\<close> gives true, \<open>0x12019\<close> gives
  false; \<open>busy\<close> returns the busy bit, \<open>readByte\<close> no boolean.
\<close>

theorem initialize_result_witness:
  "(case initialize spansion_chip (SPIFlashA 8 0x12018 power_on) of
      None \<Rightarrow> False
    | Some (b, s') \<Rightarrow>
        b \<and> jedec_read (emitted (SPIFlashA 8 0x12018 power_on) s') = Some 0x12018) \<and>
   (case initialize spansion_chip (SPIFlashA 8 0x12019 power_on) of
      None \<Rightarrow> False
    | Some (b, s') \<Rightarrow>
        \<not> b \<and> jedec_read (emitted (SPIFlashA 8 0x12019 power_on) s') = Some 0x12018) \<and>
   (case call spansion_chip Busy power_on of
      None \<Rightarrow> False
    | Some (r, s') \<Rightarrow> r = Boolean False) \<and>
   (case call spansion_chip (ReadByte 0) power_on of
      None \<Rightarrow> False
    | Some (r, s') \<Rightarrow> r \<noteq> Boolean True \<and> r \<noteq> Boolean False)"
proof -
  let ?A = "SPIFlashA 8 0x12018 power_on" and ?B = "SPIFlashA 8 0x12019 power_on"
  note t = initialize_result[where p=spansion_chip]
  have n: "initialize spansion_chip s \<noteq> None" for s
    using t[where s=s] spansion_chip_ready by blast
  obtain b1 s1 where 1: "initialize spansion_chip ?A = Some (b1, s1)"
    using n[of ?A] by auto
  obtain b2 s2 where 2: "initialize spansion_chip ?B = Some (b2, s2)"
    using n[of ?B] by auto
  have e1: "map_option (jedec_read \<circ> emitted ?A \<circ> snd) (initialize spansion_chip ?A) =
      Some (Some 0x12018)" by code_simp
  have e2: "map_option (jedec_read \<circ> emitted ?B \<circ> snd) (initialize spansion_chip ?B) =
      Some (Some 0x12018)" by code_simp
  have j1: "jedec_read (emitted ?A s1) = Some 0x12018" using e1 unfolding 1 by simp
  have j2: "jedec_read (emitted ?B s2) = Some 0x12018" using e2 unfolding 2 by simp
  have a1: "b1" using t[where s="?A" and b=b1 and s'=s1] 1 j1 by (simp add: SPIFlashA_def)
  have a2: "\<not> b2" using t[where s="?B" and b=b2 and s'=s2] 2 j2 by (simp add: SPIFlashA_def)
  obtain r3 s3 where 3: "call spansion_chip Busy power_on = Some (r3, s3)"
    using call_not_None[OF spansion_chip_ready, of Busy power_on] by auto
  have a3: "r3 = Boolean False"
    using t[where s=power_on and op=Busy and r=r3 and s''=s3] 3
    by (simp add: poll_reply_def spansion_chip_def avr_def opcode_defs)
  obtain r4 s4 where 4: "call spansion_chip (ReadByte 0) power_on = Some (r4, s4)"
    using call_not_None[OF spansion_chip_ready, of "ReadByte 0" power_on] by auto
  have a4: "r4 \<noteq> Boolean True \<and> r4 \<noteq> Boolean False"
    using t[where s=power_on and op="ReadByte 0" and r=r4 and s''=s4] 4 by simp
  show ?thesis unfolding 1 2 3 4 using a1 a2 a3 a4 j1 j2 by simp
qed

text \<open>
  C5. For every address \<open>addr\<close>, \<open>blockErase32K\<close> is eight calls of \<open>blockErase4K\<close>, in
  order, at \<open>addr\<close>, \<open>addr + 4096\<close>, ..., \<open>addr + 28672\<close>, and nothing else. If one of the
  calls does not return, neither side does.
\<close>

theorem blockErase32K_eight_calls:
  "blockErase32K p addr s =
     call_each (blockErase4K p)
       [addr, addr + 4096, addr + 8192, addr + 12288, addr + 16384, addr + 20480,
        addr + 24576, addr + 28672] s"
  by (rule blockErase32K_unrolled)

text \<open>
  C6. For every address \<open>addr\<close>, \<open>blockErase512K\<close> is eight calls of \<open>blockErase64K\<close>, in
  order, at \<open>addr\<close>, \<open>addr + 65536\<close>, ..., \<open>addr + 458752\<close>, and nothing else.
\<close>

theorem blockErase512K_eight_calls:
  "blockErase512K p addr s =
     call_each (blockErase64K p)
       [addr, addr + 65536, addr + 131072, addr + 196608, addr + 262144, addr + 327680,
        addr + 393216, addr + 458752] s"
  by (rule blockErase512K_unrolled)

text \<open>
  C7. For every address and every buffer of length \<open>len\<close>, \<open>writeBytes\<close> returns whenever
  the chip becomes ready, and what it has put on the bus is one page program command:
  after the write-enable, a single span with the opcode \<open>0x02\<close>, the three address bytes
  and all \<open>len\<close> data bytes in order; it never starts a second command at the next page.
  From this log the chip programs \<open>len\<close> cells, byte \<open>i\<close> in the page named by the first
  two address bytes, at the offset of the third plus \<open>i\<close> modulo 256: bytes that would
  cross the page boundary wrap to the beginning of that same page. No erase opcode
  (\<open>0x20\<close>, \<open>0xD8\<close>, \<open>0x60\<close>) is sent.
\<close>

theorem writeBytes_stays_in_page:
  "(eventually_ready p \<longrightarrow> writeBytes p addr buf len s \<noteq> None) \<and>
   (writeBytes p addr buf len s = Some s' \<longrightarrow>
      write_command_sequence
        (SPIFLASH_BYTEPAGEPROGRAM # addr_bytes addr @ map buf [0..<unat len])
        (emitted s s') \<and>
      set (opcodes (emitted s s')) \<subseteq>
        {SPIFLASH_STATUSREAD, SPIFLASH_WRITEENABLE, SPIFLASH_BYTEPAGEPROGRAM} \<and>
      SPIFLASH_BLOCKERASE_4K \<notin> set (opcodes (emitted s s')) \<and>
      SPIFLASH_BLOCKERASE_64K \<notin> set (opcodes (emitted s s')) \<and>
      SPIFLASH_CHIPERASE \<notin> set (opcodes (emitted s s')) \<and>
      length (chip_programs (emitted s s')) = unat len \<and>
      (\<forall>i < unat len.
         chip_programs (emitted s s') ! i =
           ((uint8_t (signed_drop_bit 16 addr), uint8_t (signed_drop_bit 8 addr),
             uint8_t addr + of_nat i), buf i)))"
proof (intro conjI impI)
  assume "eventually_ready p"
  from call_not_None[OF this, of "WriteBytes addr buf len" s]
  show "writeBytes p addr buf len s \<noteq> None" by simp
next
  assume a: "writeBytes p addr buf len s = Some s'"
  let ?C = "{SPIFLASH_STATUSREAD, SPIFLASH_WRITEENABLE, SPIFLASH_BYTEPAGEPROGRAM}"
  let ?bs = "SPIFLASH_BYTEPAGEPROGRAM # addr_bytes addr @ map buf [0..<unat len]"
  from writeBytes_post[OF a] obtain es where f: "finished s s' es"
    and w: "write_command_sequence ?bs es" by blast
  note e = emitted_finished[OF f]
  from w show "write_command_sequence ?bs (emitted s s')" unfolding e .
  from tidy_write[OF w] show sub: "set (opcodes (emitted s s')) \<subseteq> ?C"
    unfolding e tidy_def by simp
  have "SPIFLASH_BLOCKERASE_4K \<notin> ?C" "SPIFLASH_BLOCKERASE_64K \<notin> ?C" "SPIFLASH_CHIPERASE \<notin> ?C"
    by (simp_all add: opcode_defs)
  with sub show "SPIFLASH_BLOCKERASE_4K \<notin> set (opcodes (emitted s s'))"
    "SPIFLASH_BLOCKERASE_64K \<notin> set (opcodes (emitted s s'))"
    "SPIFLASH_CHIPERASE \<notin> set (opcodes (emitted s s'))" by blast+
  have pr: "chip_programs (emitted s s') =
      page_program (uint8_t (signed_drop_bit 16 addr)) (uint8_t (signed_drop_bit 8 addr))
        (uint8_t addr) (map buf [0..<unat len])"
    unfolding e chip_programs_write[OF w] by (simp add: addr_bytes_def)
  show "length (chip_programs (emitted s s')) = unat len"
    unfolding pr by simp
  show "\<forall>i < unat len.
      chip_programs (emitted s s') ! i =
        ((uint8_t (signed_drop_bit 16 addr), uint8_t (signed_drop_bit 8 addr),
          uint8_t addr + of_nat i), buf i)"
    unfolding pr by (simp add: page_program_nth)
qed

text \<open>
  The theorem for four bytes written at \<open>0x0001FE\<close> on a chip that is busy at the first
  poll: they are programmed at the offsets \<open>FE\<close>, \<open>FF\<close>, \<open>00\<close>, \<open>01\<close> of page \<open>0001\<close>.
\<close>

theorem writeBytes_stays_in_page_witness:
  "(case writeBytes slow_chip 0x1FE of_nat 4 power_on of
      None \<Rightarrow> False
    | Some s' \<Rightarrow>
        write_command_sequence [0x02, 0, 1, 0xFE, 0, 1, 2, 3] (emitted power_on s') \<and>
        SPIFLASH_CHIPERASE \<notin> set (opcodes (emitted power_on s')) \<and>
        chip_programs (emitted power_on s') =
          [((0, 1, 0xFE), 0), ((0, 1, 0xFF), 1), ((0, 1, 0), 2), ((0, 1, 1), 3)])"
proof -
  note t = writeBytes_stays_in_page[where p=slow_chip and addr="0x1FE" and buf=of_nat
      and len=4 and s=power_on]
  from t slow_chip_ready obtain s1 where
    1: "writeBytes slow_chip 0x1FE of_nat 4 power_on = Some s1" by blast
  have ab: "addr_bytes 0x1FE = [0, 1, 0xFE]"
    by (simp add: addr_bytes_stated stated_address_bytes_def)
  have u: "unat (4 :: word16) = 4" by simp
  from t[where s'=s1] 1 have
    w: "write_command_sequence [0x02, 0, 1, 0xFE, 0, 1, 2, 3] (emitted power_on s1)"
    and c: "SPIFLASH_CHIPERASE \<notin> set (opcodes (emitted power_on s1))"
    and l: "length (chip_programs (emitted power_on s1)) = 4"
    and n: "\<forall>i < 4. chip_programs (emitted power_on s1) ! i =
           ((0, 1, 0xFE + of_nat i), of_nat i)"
    by (simp_all add: ab opcode_defs upt_rec u uint8_t_def)
  have "chip_programs (emitted power_on s1) =
          [((0, 1, 0xFE), 0), ((0, 1, 0xFF), 1), ((0, 1, 0), 2), ((0, 1, 1), 3)]"
  proof (rule nth_equalityI)
    show "length (chip_programs (emitted power_on s1)) =
      length [((0, 1, 0xFE), 0), ((0, 1, 0xFF), 1), ((0, 1, 0), 2), ((0::byte, 1::byte, 1::byte), 3::byte)]"
      using l by simp
  next
    fix i assume "i < length (chip_programs (emitted power_on s1))"
    with l have "i < 4" by simp
    then consider "i = 0" | "i = 1" | "i = 2" | "i = 3" by linarith
    then show "chip_programs (emitted power_on s1) ! i =
       [((0, 1, 0xFE), 0), ((0, 1, 0xFF), 1), ((0, 1, 0), 2), ((0, 1, 1), 3)] ! i"
      using n by cases simp_all
  qed
  with w c show ?thesis unfolding 1 by simp
qed

text \<open>
  C8. \<open>sleep\<close> and \<open>wakeup\<close> do nothing: the state after either call, with the
  chip-select pin, the saved and the live SPI registers and the bus log, is the state
  before it.
\<close>

theorem sleep_wakeup_noop:
  "sleep s = s \<and> wakeup s = s"
  by (simp add: sleep_def wakeup_def)

text \<open>
  C9. If the expected identifier of the driver is 0 (the default of the constructor),
  \<open>initialize\<close>, when it returns, returns true, and what it put on the bus holds no
  JEDEC-ID opcode: the identifier is not read. It does return, and returns true,
  whenever the chip becomes ready.
\<close>

theorem initialize_without_expected_identifier:
  assumes "m_jedecID s = 0"
  shows "(initialize p s = Some (b, s') \<longrightarrow>
            b \<and> SPIFLASH_IDREAD \<notin> set (opcodes (emitted s s')) \<and>
            jedec_read (emitted s s') = None) \<and>
         (eventually_ready p \<longrightarrow> (\<exists>t. initialize p s = Some (True, t)))"
proof (intro conjI impI)
  assume i: "initialize p s = Some (b, s')"
  from initialize_unchecked[OF i assms]
  show "b" "SPIFLASH_IDREAD \<notin> set (opcodes (emitted s s'))"
    "jedec_read (emitted s s') = None" by blast+
next
  assume "eventually_ready p"
  from initialize_not_None[OF this, of s] obtain b t where i: "initialize p s = Some (b, t)"
    by auto
  from initialize_unchecked(1)[OF i assms] i show "\<exists>t. initialize p s = Some (True, t)"
    by auto
qed

text \<open>The theorem for a driver constructed with identifier 0, on the chip with identifier \<open>0x12018\<close>.\<close>

theorem initialize_without_expected_identifier_witness:
  "m_jedecID (SPIFlashA 8 0 power_on) = 0 \<and>
   (case initialize spansion_chip (SPIFlashA 8 0 power_on) of
      None \<Rightarrow> False
    | Some (b, s') \<Rightarrow>
        b \<and> SPIFLASH_IDREAD \<notin> set (opcodes (emitted (SPIFlashA 8 0 power_on) s')) \<and>
        jedec_read (emitted (SPIFlashA 8 0 power_on) s') = None)"
proof -
  let ?A = "SPIFlashA 8 0 power_on"
  have z: "m_jedecID ?A = 0" by (simp add: SPIFlashA_def)
  note t = initialize_without_expected_identifier[OF z, where p=spansion_chip]
  from t spansion_chip_ready obtain s1 where 1: "initialize spansion_chip ?A = Some (True, s1)"
    by blast
  from t[where b=True and s'=s1] 1 z show ?thesis by simp
qed

text \<open>
  C10, as amended. \<open>chipErase\<close> is \<open>blockErase512K\<close> at address 0, that is eight calls
  of \<open>blockErase64K\<close> at 0, 65536, ..., 458752, and returns whenever the chip becomes
  ready: apart from status reads and write-enables the opcodes it sends are eight 64K
  block erases (\<open>0xD8\<close>), and the chip-erase opcode (\<open>0x60\<close>) is not among its opcodes.
  Among the public operations the chip-erase opcode is sent by \<open>bulkErase\<close> and, besides
  it, by \<open>command\<close> exactly when its caller passes \<open>0x60\<close> as the opcode; no other
  operation sends it.
\<close>

theorem chipErase_is_blockErase512K:
  "chipErase p s = blockErase512K p 0 s \<and>
   chipErase p s =
     call_each (blockErase64K p)
       [0, 65536, 131072, 196608, 262144, 327680, 393216, 458752] s \<and>
   (eventually_ready p \<longrightarrow> chipErase p s \<noteq> None) \<and>
   (chipErase p s = Some s' \<longrightarrow>
      real_opcodes (emitted s s') = replicate 8 SPIFLASH_BLOCKERASE_64K \<and>
      SPIFLASH_CHIPERASE \<notin> set (opcodes (emitted s s'))) \<and>
   (call p op s = Some (r, s'') \<longrightarrow>
      (SPIFLASH_CHIPERASE \<in> set (opcodes (emitted s s'')) \<longleftrightarrow>
       op = BulkErase \<or> (\<exists>isWrite. op = Command SPIFLASH_CHIPERASE isWrite)))"
proof (intro conjI impI)
  show "chipErase p s = blockErase512K p 0 s" by (simp add: chipErase_def)
  show "chipErase p s =
     call_each (blockErase64K p)
       [0, 65536, 131072, 196608, 262144, 327680, 393216, 458752] s"
    using blockErase512K_unrolled[of p 0 s] by (simp add: chipErase_def)
next
  assume "eventually_ready p"
  from call_not_None[OF this, of ChipErase s] show "chipErase p s \<noteq> None" by simp
next
  assume c: "chipErase p s = Some s'"
  then have "blockErase512K p 0 s = Some s'" by (simp add: chipErase_def)
  from blockErase512K_post[OF this] obtain es where f: "finished s s' es"
    and r: "real_opcodes es = replicate 8 SPIFLASH_BLOCKERASE_64K" by blast
  from r show "real_opcodes (emitted s s') = replicate 8 SPIFLASH_BLOCKERASE_64K"
    by (simp add: emitted_finished[OF f])
  from c have "call p ChipErase s = Some (Void, s')" by simp
  from chip_erase_opcode_only_bulkErase[OF this]
  show "SPIFLASH_CHIPERASE \<notin> set (opcodes (emitted s s'))" by simp
next
  assume "call p op s = Some (r, s'')"
  from chip_erase_opcode_only_bulkErase[OF this]
  show "SPIFLASH_CHIPERASE \<in> set (opcodes (emitted s s'')) \<longleftrightarrow>
       op = BulkErase \<or> (\<exists>isWrite. op = Command SPIFLASH_CHIPERASE isWrite)" .
qed

text \<open>
  As stated the claim fails on \<open>command\<close>, a public member function that sends the opcode
  it is given: on a chip that is never busy, \<open>command(SPIFLASH_CHIPERASE, true)\<close> puts the
  opcodes \<open>05 06 05 60\<close> on the bus, so \<open>bulkErase\<close> is not the only operation that
  transmits the chip-erase opcode.
\<close>

theorem command_transmits_chip_erase:
  "map_option (opcodes \<circ> emitted power_on \<circ> snd)
     (call idle_chip (Command SPIFLASH_CHIPERASE True) power_on) =
     Some [0x05, 0x06, 0x05, 0x60] \<and>
   SPIFLASH_CHIPERASE = 0x60 \<and>
   map_option (emitted power_on \<circ> snd)
     (call idle_chip (Command SPIFLASH_CHIPERASE True) power_on) =
     Some [CS_Low, Xfer 0x05 0, Xfer 0 0, CS_High, CS_Low, Xfer 0x06 0, CS_High,
           CS_Low, Xfer 0x05 0, Xfer 0 0, CS_High, CS_Low, Xfer 0x60 0]"
  by code_simp

text \<open>
  The theorem at a chip that is busy at the first poll, for \<open>chipErase\<close>, \<open>bulkErase\<close>
  and \<open>command\<close> with the chip-erase opcode.
\<close>

theorem chipErase_is_blockErase512K_witness:
  "(case chipErase slow_chip power_on of
      None \<Rightarrow> False
    | Some s' \<Rightarrow>
        real_opcodes (emitted power_on s') = replicate 8 SPIFLASH_BLOCKERASE_64K \<and>
        SPIFLASH_CHIPERASE \<notin> set (opcodes (emitted power_on s'))) \<and>
   (case call slow_chip BulkErase power_on of
      None \<Rightarrow> False
    | Some (r, s') \<Rightarrow> SPIFLASH_CHIPERASE \<in> set (opcodes (emitted power_on s'))) \<and>
   (case call slow_chip (Command SPIFLASH_CHIPERASE True) power_on of
      None \<Rightarrow> False
    | Some (r, s') \<Rightarrow> SPIFLASH_CHIPERASE \<in> set (opcodes (emitted power_on s')))"
proof -
  note t = chipErase_is_blockErase512K[where p=slow_chip and s=power_on]
  from t slow_chip_ready obtain s1 where c1: "chipErase slow_chip power_on = Some s1"
    by blast
  obtain r2 s2 where 2: "call slow_chip BulkErase power_on = Some (r2, s2)"
    using call_not_None[OF slow_chip_ready] by fastforce
  obtain r3 s3 where
    3: "call slow_chip (Command SPIFLASH_CHIPERASE True) power_on = Some (r3, s3)"
    using call_not_None[OF slow_chip_ready] by fastforce
  have a: "real_opcodes (emitted power_on s1) = replicate 8 SPIFLASH_BLOCKERASE_64K \<and>
      SPIFLASH_CHIPERASE \<notin> set (opcodes (emitted power_on s1))"
    using t[where s'=s1] c1 by blast
  have b: "SPIFLASH_CHIPERASE \<in> set (opcodes (emitted power_on s2))"
    using t[where op=BulkErase and r=r2 and s''=s2] 2 by blast
  have c: "SPIFLASH_CHIPERASE \<in> set (opcodes (emitted power_on s3))"
    using t[where op="Command SPIFLASH_CHIPERASE True" and r=r3 and s''=s3] 3 by blast
  show ?thesis unfolding c1 2 3 using a b c by simp
qed

end
